theory Spec2Isabelle
  imports Main "HOL-Library.AList"
begin

section \<open>Python objects: type descriptions, literal values, defaults\<close>

text \<open>
  Everything the resolver of \<^verbatim>\<open>src/typic/serde/resolver.py\<close> inspects is a Python object:
  a type description (a class, a forward reference, a \<^verbatim>\<open>NewType\<close> alias, a subscripted
  generic such as \<^verbatim>\<open>Union[X, None]\<close> or \<^verbatim>\<open>Literal[1, 2]\<close>), a literal value, or a
  default value. One datatype covers them, as one dynamic type does in Python. A subscripted
  generic carries the name of its special form and its \<^verbatim>\<open>__args__\<close>; a float is kept by
  its \<^verbatim>\<open>repr\<close>, since only its kind matters here.
\<close>

datatype obj =
    Class string
  | ForwardRef string
  | NewType string obj
  | Generic string "obj list"
  | IntV int
  | BytesV string
  | StrV string
  | BoolV bool
  | EnumV string string
  | NoneV
  | FloatV string
  | Ellipsis
  | EMPTY
  | NotImplemented
  | Unhashable string

text \<open>\<^verbatim>\<open>LITERALS = (int, bytes, str, bool, Enum, type(None))\<close> and \<^verbatim>\<open>isinstance(a, self.LITERALS)\<close>.\<close>

fun isinstance_LITERALS :: "obj \<Rightarrow> bool" where
  "isinstance_LITERALS (IntV _) = True"
| "isinstance_LITERALS (BytesV _) = True"
| "isinstance_LITERALS (StrV _) = True"
| "isinstance_LITERALS (BoolV _) = True"
| "isinstance_LITERALS (EnumV _ _) = True"
| "isinstance_LITERALS NoneV = True"
| "isinstance_LITERALS _ = False"

text \<open>\<^verbatim>\<open>getattr(t, "__args__", None)\<close>; the empty list stands for both \<^verbatim>\<open>None\<close> and \<^verbatim>\<open>()\<close>,
  which the code only tests for truth.\<close>

fun dunder_args :: "obj \<Rightarrow> obj list" where
  "dunder_args (Generic _ as) = as"
| "dunder_args _ = []"

text \<open>Modelled from the spec: \<^verbatim>\<open>util.get_args\<close> is not in src; it is taken to return the
  arguments a parameterised type was subscripted with (for a literal type, its values).\<close>

definition get_args :: "obj \<Rightarrow> obj list" where
  "get_args t = dunder_args t"

text \<open>Modelled from the spec: \<^verbatim>\<open>util.resolve_supertype\<close> is not in src; step 1 of the
  canonicalizer resolves a type declared as a thin alias of another to its underlying type.\<close>

fun resolve_supertype :: "obj \<Rightarrow> obj" where
  "resolve_supertype (NewType _ t) = resolve_supertype t"
| "resolve_supertype t = t"

text \<open>Truth value of \<^verbatim>\<open>namespace\<close>, \<^verbatim>\<open>name\<close> and the like.\<close>

fun truthy :: "obj \<Rightarrow> bool" where
  "truthy NoneV = False"
| "truthy (BoolV b) = b"
| "truthy (IntV i) = (i \<noteq> 0)"
| "truthy (StrV s) = (s \<noteq> [])"
| "truthy (BytesV s) = (s \<noteq> [])"
| "truthy _ = True"

section \<open>SerdeFlags, Parameter, Annotation, SerdeConfig, SerdeProtocol\<close>

text \<open>\<^verbatim>\<open>flags.fields\<close> is \<^verbatim>\<open>None\<close>, a mapping of renames, or an iterable of names.\<close>

datatype field_spec = IncludeNone | IncludeMapping "(string \<times> string) list" | IncludeNames "string list"

record SerdeFlags =
  flag_fields :: field_spec
  exclude :: "string list"
  omit :: "obj list"
  case_policy :: "string option"
  signature_only :: bool

text \<open>Modelled from the spec: \<^verbatim>\<open>SerdeFlags()\<close> is not in src; its default carries no rename,
  include, exclude, omission or case rule.\<close>

definition default_flags :: SerdeFlags where
  "default_flags = \<lparr>flag_fields = IncludeNone, exclude = [], omit = [], case_policy = None,
     signature_only = False\<rparr>"

record Parameter =
  param_name :: string
  param_annotation :: obj
  param_default :: obj

datatype error =
    TypeError "obj list"
  | KeyError string
  | FactoryError string

datatype anno =
    Annotation (resolved: obj) (origin_of: obj) (un_resolved: obj) (parameter: "Parameter option")
      (optional: bool) (strict: bool) (static: bool) (serde: serde_config)
  | DelayedAnnotation (dtype: obj) (dname: "string option") (parameter: "Parameter option")
      (d_optional: bool) (d_strict: bool) (dflags: SerdeFlags) (ddefault: obj)
  | ForwardDelayedAnnotation (ref: obj) (dname: "string option") (parameter: "Parameter option")
      (d_optional: bool) (d_strict: bool) (dflags: SerdeFlags) (ddefault: obj) (module: string)
and serde_config =
    SerdeConfig (cfg_flags: SerdeFlags) (cfg_fields: "(string \<times> anno) list")
      (fields_out: "(string \<times> string) list") (fields_in: "(string \<times> string) list")
      (fields_getters: "(string \<times> string) list") (omit_values: "obj list")

text \<open>Modelled from the spec: \<^verbatim>\<open>SerdeConfig(flags)\<close> with every other attribute left at its
  default (the class is not in src): literal and non-static types get an empty configuration.\<close>

definition empty_config :: "SerdeFlags \<Rightarrow> serde_config" where
  "empty_config flags = SerdeConfig flags [] [] [] [] []"

fun is_delayed :: "anno \<Rightarrow> bool" where
  "is_delayed (Annotation _ _ _ _ _ _ _ _) = False"
| "is_delayed _ = True"

text \<open>Factories return callables; the model keeps a handle for each.\<close>

type_synonym handle = nat

datatype proto =
    SerdeProtocol (ident: nat) (annotation_of: anno) (deserializer: "handle option")
      (serializer: "handle option") (constraints: "handle option") (validator: "handle option")
  | DelayedSerdeProtocol (ident: nat) (annotation_of: anno)

fun is_delayed_protocol :: "proto \<Rightarrow> bool" where
  "is_delayed_protocol (DelayedSerdeProtocol _ _) = True"
| "is_delayed_protocol _ = False"

section \<open>Dictionaries\<close>

text \<open>
  A Python dict keeps insertion order, and an assignment to a key already present keeps the
  key's position: \<^const>\<open>AList.update\<close>. \<^verbatim>\<open>d.update(items)\<close> and a dict comprehension assign
  item after item, so a later item wins over an earlier one with the same key.
\<close>

definition dict_update :: "('k \<times> 'v) list \<Rightarrow> ('k \<times> 'v) list \<Rightarrow> ('k \<times> 'v) list" where
  "dict_update d items = fold (\<lambda>(k, v). AList.update k v) items d"

definition dict_of_items :: "('k \<times> 'v) list \<Rightarrow> ('k \<times> 'v) list" where
  "dict_of_items items = dict_update [] items"

definition keys :: "('k \<times> 'v) list \<Rightarrow> 'k set" where
  "keys d = fst ` set d"

section \<open>The resolver's state\<close>

text \<open>
  \<^verbatim>\<open>Resolver.__init__\<close> creates \<^verbatim>\<open>self.__cache = {}\<close> and \<^verbatim>\<open>self.__stack = set()\<close>; the three
  \<^verbatim>\<open>@lru_cache(maxsize=None)\<close> decorators each keep a table from arguments to result. A
  protocol is a Python object with an identity: \<open>next_id\<close> is the allocator, and \<open>built\<close>
  counts the protocols that were assembled by calling the factories.
\<close>

record resolve_args =
  arg_annotation :: obj
  arg_flags :: "SerdeFlags option"
  arg_name :: "string option"
  arg_parameter :: "Parameter option"
  arg_is_optional :: "bool option"
  arg_is_strict :: "bool option"
  arg_namespace :: obj
  arg_des :: bool
  arg_ser :: bool

record rstate =
  cache :: "(anno \<times> proto) list"
  stack :: "obj set"
  resolve_memo :: "(resolve_args \<times> proto) list"
  rfa_memo :: "((anno \<times> bool \<times> bool \<times> obj) \<times> proto) list"
  cfg_memo :: "((obj \<times> SerdeFlags) \<times> serde_config) list"
  next_id :: nat
  built :: nat

definition init_state :: rstate where
  "init_state = \<lparr>cache = [], stack = {}, resolve_memo = [], rfa_memo = [], cfg_memo = [],
     next_id = 0, built = 0\<rparr>"

text \<open>
  A call either runs out of fuel (\<open>None\<close>: the recursion between \<^verbatim>\<open>annotation\<close> and
  \<^verbatim>\<open>_get_configuration\<close> is not bounded by the code), or raises (\<open>Inl\<close>), or returns (\<open>Inr\<close>);
  in both of the latter cases it leaves a state behind.
\<close>

type_synonym 'a comp = "((error + 'a) \<times> rstate) option"

section \<open>External collaborators\<close>

text \<open>
  The modules \<^verbatim>\<open>typic.checks\<close>, \<^verbatim>\<open>typic.util\<close>, \<^verbatim>\<open>typic.common\<close>, \<^verbatim>\<open>typic.strict\<close>,
  \<^verbatim>\<open>typic.constraints\<close> and the factories \<^verbatim>\<open>DesFactory\<close>, \<^verbatim>\<open>SerFactory\<close> are not in src.
  What the resolver calls of them is a parameter of the model, one field for each function,
  so that every theorem holds whatever they compute. The reflection results of a type (its
  hints, its constructor parameters, its class attributes, its attached flags) are fields
  too.
\<close>

record env =
  STRICT :: bool
  serde_flags_attr :: "obj \<Rightarrow> SerdeFlags option"
  ishashable :: "obj \<Rightarrow> bool"
  origin :: "obj \<Rightarrow> obj"
  isoptionaltype :: "obj \<Rightarrow> bool"
  isstrict :: "obj \<Rightarrow> bool"
  isliteral :: "obj \<Rightarrow> bool"
  should_unwrap :: "obj \<Rightarrow> bool"
  isstdlibtype :: "obj \<Rightarrow> bool"
  type_check :: "obj \<Rightarrow> bool"
  DYNAMIC :: "obj set"
  module_of :: "obj \<Rightarrow> string"
  safe_get_params :: "obj \<Rightarrow> string list"
  cached_type_hints :: "obj \<Rightarrow> (string \<times> obj) list"
  class_attr :: "obj \<Rightarrow> string \<Rightarrow> obj"
  get_name :: "obj \<Rightarrow> string"
  delayed_origin :: "obj \<Rightarrow> obj"
  case_transformer :: "string \<Rightarrow> string \<Rightarrow> string"
  get_constraints :: "obj \<Rightarrow> bool \<Rightarrow> obj \<Rightarrow> error + handle"
  des_factory :: "anno \<Rightarrow> handle \<Rightarrow> obj \<Rightarrow> error + handle \<times> handle"
  ser_factory :: "anno \<Rightarrow> error + handle"
  proto_transmute :: "proto \<Rightarrow> obj \<Rightarrow> rstate \<Rightarrow> (error + obj) \<times> rstate"

text \<open>The type of \<^verbatim>\<open>self.annotation\<close>, as the field-mapping builder calls it back:
  annotation, name, parameter, is_optional, is_strict, flags, default, namespace.\<close>

type_synonym annotation_fun =
  "obj \<Rightarrow> string option \<Rightarrow> Parameter option \<Rightarrow> bool option \<Rightarrow> bool option \<Rightarrow>
   SerdeFlags option \<Rightarrow> obj \<Rightarrow> obj \<Rightarrow> rstate \<Rightarrow> anno comp"

section \<open>Memoization\<close>

text \<open>
  Modelled from the spec: \<^verbatim>\<open>lru_cache\<close> is imported from \<^verbatim>\<open>typic.compat\<close>, which is not in
  src. The spec has the resolution memoized, the cache unbounded and without eviction; this
  is \<^verbatim>\<open>functools.lru_cache(maxsize=None)\<close>: a call whose arguments are in the table returns
  the stored result and runs nothing; otherwise the function runs, and its result is stored
  when it returns. An exception leaves the table as it is. The arguments are taken to be
  hashable. The table is read through \<open>get\<close> and written through \<open>put\<close>.
\<close>

definition lru_cache ::
  "(rstate \<Rightarrow> ('k \<times> 'v) list) \<Rightarrow> (('k \<times> 'v) list \<Rightarrow> rstate \<Rightarrow> rstate) \<Rightarrow>
   'k \<Rightarrow> (rstate \<Rightarrow> 'v comp) \<Rightarrow> rstate \<Rightarrow> 'v comp" where
  "lru_cache get put key body s =
     (case map_of (get s) key of
        Some v \<Rightarrow> Some (Inr v, s)
      | None \<Rightarrow>
          (case body s of
             None \<Rightarrow> None
           | Some (Inl e, s') \<Rightarrow> Some (Inl e, s')
           | Some (Inr v, s') \<Rightarrow> Some (Inr v, put (AList.update key v (get s')) s')))"

section \<open>The field-mapping builder\<close>

text \<open>\<^verbatim>\<open>anno.origin\<close> in the omission loop; for a \<^verbatim>\<open>DelayedAnnotation\<close> the attribute is
  defined outside src and is a parameter.\<close>

fun anno_origin :: "env \<Rightarrow> anno \<Rightarrow> obj" where
  "anno_origin env (Annotation _ orig _ _ _ _ _ _) = orig"
| "anno_origin env (DelayedAnnotation t _ _ _ _ _ _) = delayed_origin env t"
| "anno_origin env (ForwardDelayedAnnotation r _ _ _ _ _ _ _) = delayed_origin env r"

text \<open>Lines 324--334: the loop over \<^verbatim>\<open>fields_out.items()\<close> that drops fields whose type or
  default is an omitted type. \<^verbatim>\<open>fields[name]\<close> raises \<^verbatim>\<open>KeyError\<close> for a name that is
  not a field.\<close>

fun omit_fields ::
  "env \<Rightarrow> (string \<times> anno) list \<Rightarrow> obj list \<Rightarrow> string list \<Rightarrow> (string \<times> string) list \<Rightarrow>
   (string \<times> string) list \<Rightarrow> error + (string \<times> string) list" where
  "omit_fields env flds type_omissions type_name_omissions [] fields_out_final =
     Inr fields_out_final"
| "omit_fields env flds type_omissions type_name_omissions ((name, out) # rest) fields_out_final =
     (case map_of flds name of
        None \<Rightarrow> Inl (KeyError name)
      | Some anno \<Rightarrow>
          (let dflt = (case parameter anno of Some p \<Rightarrow> param_default p | None \<Rightarrow> EMPTY);
               keep = (case anno of
                         ForwardDelayedAnnotation r _ _ _ _ _ _ _ \<Rightarrow>
                           get_name env r \<notin> set type_name_omissions \<and>
                           get_name env dflt \<notin> set type_name_omissions
                       | _ \<Rightarrow>
                           anno_origin env anno \<notin> set type_omissions \<and>
                           dflt \<notin> set type_omissions)
           in omit_fields env flds type_omissions type_name_omissions rest
                (if keep then AList.update name out fields_out_final else fields_out_final)))"

text \<open>
  Lines 301--308 of \<^verbatim>\<open>_get_configuration\<close>: the output name map, seeded with the field
  names and updated with \<^verbatim>\<open>flags.fields\<close>.
\<close>

definition included :: "SerdeFlags \<Rightarrow> (string \<times> anno) list \<Rightarrow> (string \<times> string) list" where
  "included flags flds =
     (case flag_fields flags of
        IncludeNone \<Rightarrow> dict_of_items (map (\<lambda>(x, a). (x, x)) flds)
      | IncludeMapping m \<Rightarrow>
          if m \<noteq> [] then dict_update (dict_of_items (map (\<lambda>(x, a). (x, x)) flds)) m
          else dict_of_items (map (\<lambda>(x, a). (x, x)) flds)
      | IncludeNames ns \<Rightarrow>
          if ns \<noteq> []
          then dict_update (dict_of_items (map (\<lambda>(x, a). (x, x)) flds))
                 (dict_of_items (map (\<lambda>x. (x, x)) ns))
          else dict_of_items (map (\<lambda>(x, a). (x, x)) flds))"

text \<open>Lines 310--312: the map is rebuilt with the case transformer applied to every value.\<close>

definition named_out :: "env \<Rightarrow> SerdeFlags \<Rightarrow> (string \<times> anno) list \<Rightarrow> (string \<times> string) list" where
  "named_out env flags flds =
     (case case_policy flags of
        None \<Rightarrow> included flags flds
      | Some c \<Rightarrow>
          if c \<noteq> []
          then dict_of_items (map (\<lambda>(x, y). (x, case_transformer env c y)) (included flags flds))
          else included flags flds)"

text \<open>
  Lines 297--351 of \<^verbatim>\<open>_get_configuration\<close>: from the flags, the constructor's parameter
  names and the canonicalized fields to the \<^verbatim>\<open>SerdeConfig\<close>. The intersection
  \<^verbatim>\<open>fields.keys() & params.keys()\<close> is a Python set, whose iteration order is not specified;
  the model keeps the order of the fields. \<^verbatim>\<open>attrgetter(x)\<close> is kept as the name \<open>x\<close>.
\<close>

definition configure ::
  "env \<Rightarrow> SerdeFlags \<Rightarrow> string list \<Rightarrow> (string \<times> anno) list \<Rightarrow> error + serde_config" where
  "configure env flags params fields0 =
     (let flds = (if signature_only flags
                  then filter (\<lambda>(x, a). x \<in> set params) fields0 else fields0);
          fields_out3 = named_out env flags flds;
          type_omissions = filter (\<lambda>o'. type_check env o' \<or> o' = NotImplemented) (omit flags);
          type_name_omissions = map (get_name env) type_omissions;
          value_omissions = (if omit flags \<noteq> []
                             then filter (\<lambda>o'. o' \<notin> set type_omissions) (omit flags) else [])
      in case (if omit flags \<noteq> []
               then omit_fields env flds type_omissions type_name_omissions fields_out3 []
               else Inr fields_out3) of
           Inl e \<Rightarrow> Inl e
         | Inr fields_out4 \<Rightarrow>
             (let fields_in1 = dict_of_items (map (\<lambda>(x, y). (y, x)) fields_out4);
                  fields_in2 = (if params \<noteq> []
                                then filter (\<lambda>(x, y). y \<in> set params) fields_in1
                                else fields_in1);
                  fields_out5 = (if exclude flags \<noteq> []
                                 then filter (\<lambda>(x, y). x \<notin> set (exclude flags)) fields_out4
                                 else fields_out4);
                  getters = dict_of_items (map (\<lambda>(x, a). (x, x)) flds)
              in Inr (SerdeConfig flags flds fields_out5 fields_in2 getters value_omissions)))"

text \<open>Lines 289--295: the loop over \<^verbatim>\<open>hints.items()\<close>. Each field's type is canonicalized
  with \<^verbatim>\<open>dataclasses.replace(flags, fields={})\<close>, the class attribute of that name as the
  default, and the type itself as the namespace.\<close>

fun config_fields ::
  "env \<Rightarrow> annotation_fun \<Rightarrow> obj \<Rightarrow> SerdeFlags \<Rightarrow> (string \<times> obj) list \<Rightarrow>
   (string \<times> anno) list \<Rightarrow> rstate \<Rightarrow> (string \<times> anno) list comp" where
  "config_fields env self_annotation orig flags [] flds s = Some (Inr flds, s)"
| "config_fields env self_annotation orig flags ((name, t) # hints) flds s =
     (case self_annotation t None None None None
             (Some (flags\<lparr>flag_fields := IncludeMapping []\<rparr>)) (class_attr env orig name) orig s of
        None \<Rightarrow> None
      | Some (Inl e, s') \<Rightarrow> Some (Inl e, s')
      | Some (Inr a, s') \<Rightarrow>
          config_fields env self_annotation orig flags hints (AList.update name a flds) s')"

text \<open>\<^verbatim>\<open>_get_configuration\<close> without its decorator.\<close>

definition get_configuration_body ::
  "env \<Rightarrow> annotation_fun \<Rightarrow> obj \<Rightarrow> SerdeFlags \<Rightarrow> rstate \<Rightarrow> serde_config comp" where
  "get_configuration_body env self_annotation orig flags0 s =
     (let flags = (case serde_flags_attr env orig of Some f \<Rightarrow> f | None \<Rightarrow> flags0);
          params = safe_get_params env orig;
          hints = cached_type_hints env orig
      in case config_fields env self_annotation orig flags hints [] s of
           None \<Rightarrow> None
         | Some (Inl e, s') \<Rightarrow> Some (Inl e, s')
         | Some (Inr flds, s') \<Rightarrow>
             (case configure env flags params flds of
                Inl e \<Rightarrow> Some (Inl e, s')
              | Inr cfg \<Rightarrow> Some (Inr cfg, s')))"

text \<open>\<^verbatim>\<open>_get_configuration\<close>, memoized on \<^verbatim>\<open>(origin, flags)\<close>.\<close>

definition get_configuration ::
  "env \<Rightarrow> annotation_fun \<Rightarrow> obj \<Rightarrow> SerdeFlags \<Rightarrow> rstate \<Rightarrow> serde_config comp" where
  "get_configuration env self_annotation orig flags =
     lru_cache cfg_memo (\<lambda>m s. s\<lparr>cfg_memo := m\<rparr>) (orig, flags)
       (get_configuration_body env self_annotation orig flags)"

section \<open>The canonicalizer\<close>

text \<open>
  Lines 396--412: the \<^verbatim>\<open>while checks.should_unwrap(use) and args\<close> loop. It returns
  \<^verbatim>\<open>use\<close>, \<^verbatim>\<open>is_optional\<close>, \<^verbatim>\<open>is_strict\<close>, \<^verbatim>\<open>is_static\<close> and \<^verbatim>\<open>is_literal\<close>; \<^verbatim>\<open>args\<close> is
  assigned again before its next use. Each round goes to the first argument of the type at
  hand, so the loop ends.
\<close>

function unwrap ::
  "env \<Rightarrow> obj \<Rightarrow> obj list \<Rightarrow> bool \<Rightarrow> bool \<Rightarrow> bool \<Rightarrow> bool \<Rightarrow> obj \<times> bool \<times> bool \<times> bool \<times> bool" where
  "unwrap env use args is_optional is_strict is_static is_literal =
     (if should_unwrap env use \<and> args \<noteq> []
      then (let is_optional' = (is_optional \<or> isoptionaltype env use);
                is_strict' = (is_strict \<or> isstrict env use)
            in if is_optional' \<and> length args > 2
               then (Generic ''Union'' (butlast args), is_optional', is_strict', False, is_literal)
               else (let use' = resolve_supertype (hd args)
                     in unwrap env use' (get_args use') is_optional' is_strict'
                          (origin env use' \<notin> DYNAMIC env) (is_literal \<or> isliteral env use')))
      else (use, is_optional, is_strict, is_static, is_literal))"
  by pat_completeness auto

termination unwrap
proof (relation "measure (\<lambda>(env, use, args, _). size_list size args)", goal_cases)
  case 1
  show ?case by simp
next
  case (2 env use args is_optional is_strict is_static is_literal x xa xb)
  have sup: "size (resolve_supertype t) \<le> size t" for t
    by (induction t rule: resolve_supertype.induct) auto
  have "size_list size (get_args t) \<le> size t" for t
    by (cases t) (auto simp: get_args_def)
  then have "size_list size (get_args (resolve_supertype (hd args))) \<le> size (hd args)"
    using sup order_trans by blast
  moreover have "size (hd args) < size_list size args"
    using 2 by (cases args) auto
  ultimately show ?case using 2 by simp
qed

declare unwrap.simps [simp del]

definition resolver_module :: string where
  "resolver_module = ''typic.serde.resolver''"

text \<open>
  \<^verbatim>\<open>Resolver.annotation\<close>, lines 369--412: the flags, the parameter, the origin, and what
  the unwrapping leaves of the annotation. Nothing here reads or writes the resolver's state.
\<close>

record canon =
  c_flags :: SerdeFlags
  c_parameter :: Parameter
  c_orig :: obj
  c_use :: obj
  c_optional :: bool
  c_strict :: bool
  c_static :: bool
  c_literal :: bool

definition canonical ::
  "env \<Rightarrow> obj \<Rightarrow> string option \<Rightarrow> Parameter option \<Rightarrow> bool option \<Rightarrow> bool option \<Rightarrow>
   SerdeFlags option \<Rightarrow> obj \<Rightarrow> canon" where
  "canonical env annotation name parameter0 is_optional0 is_strict0 flags0 dflt =
     (let flags = (case serde_flags_attr env annotation of
                     Some f \<Rightarrow> f
                   | None \<Rightarrow> (case flags0 of Some f \<Rightarrow> f | None \<Rightarrow> default_flags));
          param = (case parameter0 of
                     Some p \<Rightarrow> p
                   | None \<Rightarrow>
                       \<lparr>param_name = (case name of
                                        Some n \<Rightarrow> if n \<noteq> [] then n else ''_''
                                      | None \<Rightarrow> ''_''),
                        param_annotation = annotation,
                        param_default = (if ishashable env dflt then dflt else Ellipsis)\<rparr>);
          non_super = resolve_supertype annotation;
          orig = origin env annotation;
          args = dunder_args non_super;
          is_optional1 = (is_optional0 = Some True \<or> isoptionaltype env non_super
                          \<or> param_default param \<in> {NoneV, Ellipsis});
          is_strict1 = (is_strict0 = Some True \<or> isstrict env non_super \<or> STRICT env);
          is_static1 = (origin env non_super \<notin> DYNAMIC env);
          is_literal1 = isliteral env non_super
      in case unwrap env non_super args is_optional1 is_strict1 is_static1 is_literal1 of
           (use, is_optional, is_strict, is_static, is_literal) \<Rightarrow>
             \<lparr>c_flags = flags, c_parameter = param, c_orig = orig, c_use = use,
              c_optional = is_optional, c_strict = is_strict, c_static = is_static,
              c_literal = is_literal\<rparr>)"

fun is_ForwardRef :: "obj \<Rightarrow> bool" where
  "is_ForwardRef (ForwardRef _) = True"
| "is_ForwardRef _ = False"

text \<open>
  \<^verbatim>\<open>Resolver.annotation\<close>, lines 414--479, with the call of \<^verbatim>\<open>self.annotation\<close> that
  \<^verbatim>\<open>_get_configuration\<close> makes for each field as the parameter \<open>self_annotation\<close>. Not
  modelled: the \<^verbatim>\<open>resolver\<close> and \<^verbatim>\<open>frame\<close> attributes of the delayed annotations, and
  \<^verbatim>\<open>anno.translator\<close>.
\<close>

definition annotation_body :: "env \<Rightarrow> annotation_fun \<Rightarrow> annotation_fun" where
  "annotation_body env self_annotation annotation name parameter0 is_optional0 is_strict0 flags0
       dflt namespace s =
     (let c = canonical env annotation name parameter0 is_optional0 is_strict0 flags0 dflt;
          use = c_use c
      in if c_literal c \<and> (\<exists>a \<in> set (get_args use). \<not> isinstance_LITERALS a)
         then Some (Inl (TypeError (get_args use)), s)
         else if is_ForwardRef use
         then Some (Inr (ForwardDelayedAnnotation use name (Some (c_parameter c)) (c_optional c)
                           (c_strict c) (c_flags c) dflt
                           (if truthy namespace then module_of env namespace
                            else resolver_module)), s)
         else if use = namespace \<or> use \<in> stack s
         then Some (Inr (DelayedAnnotation use name (Some (c_parameter c)) (c_optional c)
                           (c_strict c) (c_flags c) dflt),
                    s\<lparr>stack := stack s - {use}\<rparr>)
         else (let s1 = (if \<not> isstdlibtype env use
                         then s\<lparr>stack := insert use (stack s)\<rparr> else s)
               in case (if c_static c \<and> \<not> c_literal c
                        then get_configuration env self_annotation (origin env use) (c_flags c) s1
                        else Some (Inr (empty_config (c_flags c)), s1)) of
                    None \<Rightarrow> None
                  | Some (Inl e, s2) \<Rightarrow> Some (Inl e, s2)
                  | Some (Inr cfg, s2) \<Rightarrow>
                      Some (Inr (Annotation use (c_orig c) annotation (Some (c_parameter c))
                                   (c_optional c) (c_strict c) (c_static c) cfg), s2)))"

text \<open>Tying the knot: \<open>n\<close> bounds the depth of nested \<^verbatim>\<open>self.annotation\<close> calls.\<close>

fun annotation :: "nat \<Rightarrow> env \<Rightarrow> annotation_fun" where
  "annotation 0 env = annotation_body env (\<lambda>_ _ _ _ _ _ _ _ _. None)"
| "annotation (Suc n) env = annotation_body env (annotation n env)"

section \<open>The protocol cache and builder\<close>

text \<open>
  \<^verbatim>\<open>_resolve_from_annotation\<close> without its decorator, lines 489--517. The factories are
  parameters; each may raise. A new protocol object takes the next identity.
\<close>

definition resolve_from_annotation_body ::
  "env \<Rightarrow> anno \<Rightarrow> bool \<Rightarrow> bool \<Rightarrow> obj \<Rightarrow> rstate \<Rightarrow> proto comp" where
  "resolve_from_annotation_body env anno des0 ser0 namespace s =
     (case map_of (cache s) anno of
        Some p \<Rightarrow> Some (Inr p, s)
      | None \<Rightarrow>
          if is_delayed anno
          then Some (Inr (DelayedSerdeProtocol (next_id s) anno), s\<lparr>next_id := Suc (next_id s)\<rparr>)
          else (let des = (if origin_of anno = Class ''Callable'' then False else des0);
                    ser = (if origin_of anno = Class ''Callable'' then False else ser0)
                in case (if des
                         then (case get_constraints env (resolved anno) (optional anno) namespace of
                                 Inl e \<Rightarrow> Inl e
                               | Inr c \<Rightarrow>
                                   (case des_factory env anno c namespace of
                                      Inl e \<Rightarrow> Inl e
                                    | Inr (d, v) \<Rightarrow> Inr (Some d, Some v, Some c)))
                         else Inr (None, None, None)) of
                     Inl e \<Rightarrow> Some (Inl e, s)
                   | Inr (des_h, val_h, con_h) \<Rightarrow>
                       (case (if ser
                              then (case ser_factory env anno of
                                      Inl e \<Rightarrow> Inl e | Inr h \<Rightarrow> Inr (Some h))
                              else Inr None) of
                          Inl e \<Rightarrow> Some (Inl e, s)
                        | Inr ser_h \<Rightarrow>
                            (let proto = SerdeProtocol (next_id s) anno des_h ser_h con_h val_h
                             in Some (Inr proto,
                                      s\<lparr>cache := AList.update anno proto (cache s),
                                        next_id := Suc (next_id s),
                                        built := Suc (built s)\<rparr>)))))"

definition resolve_from_annotation ::
  "env \<Rightarrow> anno \<Rightarrow> bool \<Rightarrow> bool \<Rightarrow> obj \<Rightarrow> rstate \<Rightarrow> proto comp" where
  "resolve_from_annotation env anno des ser namespace =
     lru_cache rfa_memo (\<lambda>m s. s\<lparr>rfa_memo := m\<rparr>) (anno, des, ser, namespace)
       (resolve_from_annotation_body env anno des ser namespace)"

text \<open>\<^verbatim>\<open>Resolver.resolve\<close> without its decorator, lines 567--579: \<^verbatim>\<open>self.__stack.clear()\<close>
  is a plain statement after the two calls, so it runs when both have returned.\<close>

definition resolve_body :: "nat \<Rightarrow> env \<Rightarrow> resolve_args \<Rightarrow> rstate \<Rightarrow> proto comp" where
  "resolve_body n env a s =
     (case annotation n env (arg_annotation a) (arg_name a) (arg_parameter a) (arg_is_optional a)
             (arg_is_strict a) (arg_flags a) EMPTY (arg_namespace a) s of
        None \<Rightarrow> None
      | Some (Inl e, s1) \<Rightarrow> Some (Inl e, s1)
      | Some (Inr anno, s1) \<Rightarrow>
          (case resolve_from_annotation env anno (arg_des a) (arg_ser a) (arg_namespace a) s1 of
             None \<Rightarrow> None
           | Some (Inl e, s2) \<Rightarrow> Some (Inl e, s2)
           | Some (Inr p, s2) \<Rightarrow> Some (Inr p, s2\<lparr>stack := {}\<rparr>)))"

definition resolve :: "nat \<Rightarrow> env \<Rightarrow> resolve_args \<Rightarrow> rstate \<Rightarrow> proto comp" where
  "resolve n env a = lru_cache resolve_memo (\<lambda>m s. s\<lparr>resolve_memo := m\<rparr>) a (resolve_body n env a)"

text \<open>\<^verbatim>\<open>self.resolve(annotation)\<close> with every keyword argument at its default.\<close>

definition plain :: "obj \<Rightarrow> resolve_args" where
  "plain t = \<lparr>arg_annotation = t, arg_flags = None, arg_name = None, arg_parameter = None,
     arg_is_optional = None, arg_is_strict = None, arg_namespace = NoneV, arg_des = True,
     arg_ser = True\<rparr>"

text \<open>\<^verbatim>\<open>Resolver.transmute\<close>, lines 100--103: resolve, then the protocol's own
  \<^verbatim>\<open>transmute\<close>, which is outside src.\<close>

definition transmute :: "nat \<Rightarrow> env \<Rightarrow> obj \<Rightarrow> obj \<Rightarrow> rstate \<Rightarrow> obj comp" where
  "transmute n env t value s =
     (case resolve n env (plain t) s of
        None \<Rightarrow> None
      | Some (Inl e, s1) \<Rightarrow> Some (Inl e, s1)
      | Some (Inr p, s1) \<Rightarrow> Some (proto_transmute env p value s1))"

text \<open>\<^verbatim>\<open>Resolver.coerce_value\<close>, lines 170--176. \<^verbatim>\<open>warnings.warn\<close> adds to the warnings the
  process has issued, a list beside the resolver's state; the filters of the \<^verbatim>\<open>warnings\<close>
  module are left at their default, under which a warning is not raised as an exception.\<close>

datatype warning = DeprecationWarning string

definition coerce_value ::
  "nat \<Rightarrow> env \<Rightarrow> obj \<Rightarrow> obj \<Rightarrow> rstate \<Rightarrow> warning list \<Rightarrow> obj comp \<times> warning list" where
  "coerce_value n env value t s issued =
     (let issued' = issued @ [DeprecationWarning
            (''typic.coerce has been deprecated and will be removed in a future '' @
             ''version. Use typic.transmute instead.'')]
      in (transmute n env t value s, issued'))"

section \<open>A concrete environment\<close>

text \<open>
  Modelled from the spec: \<^verbatim>\<open>Case\<close> of \<^verbatim>\<open>typic.common\<close> is not in src; its camel-case
  transformer maps snake\_case to camelCase, \<^verbatim>\<open>user_name\<close> to \<^verbatim>\<open>userName\<close>: an underscore is
  dropped and the letter after it is capitalised.
\<close>

definition upper :: "char \<Rightarrow> char" where
  "upper c = (case map_of (zip ''abcdefghijklmnopqrstuvwxyz'' ''ABCDEFGHIJKLMNOPQRSTUVWXYZ'') c of
                Some u \<Rightarrow> u | None \<Rightarrow> c)"

fun camel :: "bool \<Rightarrow> string \<Rightarrow> string" where
  "camel up [] = []"
| "camel up (c # cs) =
     (if c = CHR ''_'' then camel True cs else (if up then upper c else c) # camel False cs)"

text \<open>
  Modelled from the spec: the reflection utility and the checks, for the types the examples
  below use. \<^verbatim>\<open>Foo\<close> has one field \<^verbatim>\<open>x: Literal[1.5]\<close>; \<^verbatim>\<open>User\<close> has \<^verbatim>\<open>id: int\<close> and
  \<^verbatim>\<open>user_name: str\<close>; \<^verbatim>\<open>Outer\<close> has \<^verbatim>\<open>id: int\<close> and \<^verbatim>\<open>inner: Inner\<close>; \<^verbatim>\<open>Inner\<close> has
  \<^verbatim>\<open>id: int\<close> and \<^verbatim>\<open>x: int\<close>; \<^verbatim>\<open>Node\<close> has \<^verbatim>\<open>next: Node\<close>. Every constructor takes the
  fields of its class. An optional type is a union whose last argument is \<^verbatim>\<open>NoneType\<close>; the
  unwrappable forms are the optional ones and \<^verbatim>\<open>ClassVar\<close>, \<^verbatim>\<open>Final\<close>, \<^verbatim>\<open>ReadOnly\<close>, never
  a literal; the origin of a subscripted generic is its head. The factories return a handle
  each and never raise, and a protocol transmutes a value to itself.
\<close>

definition example_hints :: "obj \<Rightarrow> (string \<times> obj) list" where
  "example_hints t =
     (if t = Class ''Foo'' then [(''x'', Generic ''Literal'' [FloatV ''1.5''])]
      else if t = Class ''User'' then [(''id'', Class ''int''), (''user_name'', Class ''str'')]
      else if t = Class ''Outer'' then [(''id'', Class ''int''), (''inner'', Class ''Inner'')]
      else if t = Class ''Inner'' then [(''id'', Class ''int''), (''x'', Class ''int'')]
      else if t = Class ''Node'' then [(''next'', Class ''Node'')]
      else [])"

definition example_env :: env where
  "example_env =
     \<lparr>STRICT = False,
      serde_flags_attr = (\<lambda>t. None),
      ishashable = (\<lambda>v. case v of Unhashable _ \<Rightarrow> False | _ \<Rightarrow> True),
      origin = (\<lambda>t. case t of Generic h _ \<Rightarrow> Class h | _ \<Rightarrow> t),
      isoptionaltype = (\<lambda>t. case t of
                           Generic h as \<Rightarrow>
                             h = ''Union'' \<and> length as > 1 \<and> last as = Class ''NoneType''
                         | _ \<Rightarrow> False),
      isstrict = (\<lambda>t. False),
      isliteral = (\<lambda>t. case t of Generic h _ \<Rightarrow> h = ''Literal'' | _ \<Rightarrow> False),
      should_unwrap = (\<lambda>t. case t of
                          Generic h as \<Rightarrow>
                            h \<noteq> ''Literal'' \<and>
                            ((h = ''Union'' \<and> length as > 1 \<and> last as = Class ''NoneType'')
                             \<or> h \<in> {''ClassVar'', ''Final'', ''ReadOnly''})
                        | _ \<Rightarrow> False),
      isstdlibtype = (\<lambda>t. t \<in> {Class ''int'', Class ''str'', Class ''bool'', Class ''bytes'',
                                 Class ''float'', Class ''NoneType''}),
      type_check = (\<lambda>v. case v of Class _ \<Rightarrow> True | Generic _ _ \<Rightarrow> True
                        | NewType _ _ \<Rightarrow> True | ForwardRef _ \<Rightarrow> True | _ \<Rightarrow> False),
      DYNAMIC = {Class ''Union'', Class ''Any''},
      module_of = (\<lambda>t. ''example''),
      safe_get_params = (\<lambda>t. map fst (example_hints t)),
      cached_type_hints = example_hints,
      class_attr = (\<lambda>t name. EMPTY),
      get_name = (\<lambda>v. case v of Class n \<Rightarrow> n | Generic h _ \<Rightarrow> h | NewType n _ \<Rightarrow> n
                      | ForwardRef n \<Rightarrow> n | _ \<Rightarrow> []),
      delayed_origin = (\<lambda>t. case t of Generic h _ \<Rightarrow> Class h | _ \<Rightarrow> t),
      case_transformer = (\<lambda>c. if c = ''camelCase'' then camel False else (\<lambda>x. x)),
      get_constraints = (\<lambda>t nullable cls. Inr 0),
      des_factory = (\<lambda>a c ns. Inr (1, 2)),
      ser_factory = (\<lambda>a. Inr 3),
      proto_transmute = (\<lambda>p v s. (Inr v, s))\<rparr>"

definition example_fields :: "(string \<times> anno) list" where
  "example_fields =
     [(''id'', Annotation (Class ''int'') (Class ''int'') (Class ''int'') None False False True
                 (empty_config default_flags)),
      (''user_name'', Annotation (Class ''str'') (Class ''str'') (Class ''str'') None False False
                 True (empty_config default_flags))]"

section \<open>The specification's words for the output names\<close>

text \<open>
  The name an explicit rename gives a field, its own name when there is none (of two renames
  of one field the later counts, as in \<^verbatim>\<open>dict.update\<close>); the case policy applied to a name;
  the names that \<^verbatim>\<open>flags.fields\<close> lists.
\<close>

definition spec_rename :: "SerdeFlags \<Rightarrow> string \<Rightarrow> string" where
  "spec_rename flags x =
     (case flag_fields flags of
        IncludeMapping m \<Rightarrow> (case map_of (rev m) x of Some r \<Rightarrow> r | None \<Rightarrow> x)
      | _ \<Rightarrow> x)"

definition spec_case :: "env \<Rightarrow> SerdeFlags \<Rightarrow> string \<Rightarrow> string" where
  "spec_case env flags y =
     (case case_policy flags of
        Some c \<Rightarrow> if c \<noteq> [] then case_transformer env c y else y
      | None \<Rightarrow> y)"

definition listed :: "field_spec \<Rightarrow> string set" where
  "listed fs =
     (case fs of IncludeNone \<Rightarrow> {} | IncludeMapping m \<Rightarrow> keys m | IncludeNames ns \<Rightarrow> set ns)"

section \<open>Observations and invariants\<close>

text \<open>The value a call returned, if it returned; the output name map of the structured type
  of a field.\<close>

definition returned :: "'a comp \<Rightarrow> 'a option" where
  "returned r = (case r of Some (Inr v, s) \<Rightarrow> Some v | _ \<Rightarrow> None)"

definition nested_fields_out :: "string \<Rightarrow> anno \<Rightarrow> (string \<times> string) list" where
  "nested_fields_out name a =
     (case map_of (cfg_fields (serde a)) name of Some b \<Rightarrow> fields_out (serde b) | None \<Rightarrow> [])"

text \<open>A stand-in for \<^verbatim>\<open>self.annotation\<close> that hands back, as a delayed annotation, the type,
  the flags and the default it was called with, and leaves the state alone.\<close>

definition probe :: annotation_fun where
  "probe t name par opt str fl dflt ns s =
     Some (Inr (DelayedAnnotation t name par False False
                  (case fl of Some f \<Rightarrow> f | None \<Rightarrow> default_flags) dflt), s)"

text \<open>What canonicalization leaves alone: it writes the in-flight stack and the table of
  \<^verbatim>\<open>_get_configuration\<close> only.\<close>

definition frame :: "rstate \<Rightarrow> rstate \<Rightarrow> bool" where
  "frame s s' \<longleftrightarrow>
     cache s' = cache s \<and> resolve_memo s' = resolve_memo s \<and> rfa_memo s' = rfa_memo s \<and>
     next_id s' = next_id s \<and> built s' = built s"

definition preserves :: "annotation_fun \<Rightarrow> bool" where
  "preserves f \<longleftrightarrow>
     (\<forall>t name par opt str fl dflt ns s r s'.
        f t name par opt str fl dflt ns s = Some (r, s') \<longrightarrow> frame s s')"

text \<open>A sequence of top-level calls of \<^verbatim>\<open>resolve\<close>, each run to its end, whether it returns
  or raises.\<close>

fun resolve_many :: "env \<Rightarrow> (nat \<times> resolve_args) list \<Rightarrow> rstate \<Rightarrow> rstate option" where
  "resolve_many env [] s = Some s"
| "resolve_many env ((n, a) # calls) s =
     (case resolve n env a s of None \<Rightarrow> None | Some (r, s') \<Rightarrow> resolve_many env calls s')"

text \<open>The protocol cache holds concrete annotations only, and the table of
  \<^verbatim>\<open>_resolve_from_annotation\<close> gives a delayed annotation a delayed protocol. The resolver
  starts in such a state and every \<^verbatim>\<open>resolve\<close> keeps it so.\<close>

definition delayed_ok :: "rstate \<Rightarrow> bool" where
  "delayed_ok s \<longleftrightarrow>
     list_all (\<lambda>(a, p). \<not> is_delayed a) (cache s) \<and>
     list_all (\<lambda>((a, d, sr, ns), p). is_delayed a \<longrightarrow> is_delayed_protocol p) (rfa_memo s)"

section \<open>Facts about dictionaries\<close>

lemma update_fresh: "k \<notin> fst ` set d \<Longrightarrow> AList.update k v d = d @ [(k, v)]"
  by (induction d) auto

lemma set_update_subset: "set (AList.update k v d) \<subseteq> insert (k, v) (set d)"
  by (induction d) auto

lemma map_of_dict_update: "map_of (dict_update d items) = map_of d ++ map_of (rev items)"
  unfolding dict_update_def
proof (induction items arbitrary: d)
  case Nil
  show ?case by simp
next
  case (Cons a items)
  obtain k v where a: "a = (k, v)" by (cases a)
  show ?case
    by (simp add: a Cons update_conv' map_add_upd_left ext)
       (auto simp: map_add_def fun_eq_iff split: option.splits)
qed

lemma map_of_dict_of_items: "map_of (dict_of_items items) = map_of (rev items)"
  by (simp add: dict_of_items_def map_of_dict_update)

lemma distinct_dict_update:
  "distinct (map fst d) \<Longrightarrow> distinct (map fst (dict_update d items))"
  unfolding dict_update_def
  by (induction items arbitrary: d) (auto simp: distinct_update)

lemma distinct_dict_of_items: "distinct (map fst (dict_of_items items))"
  by (simp add: dict_of_items_def distinct_dict_update)

lemma keys_dict_update: "keys (dict_update d items) = keys d \<union> keys items"
  unfolding dict_update_def keys_def
proof (induction items arbitrary: d)
  case Nil
  show ?case by simp
next
  case (Cons a items)
  obtain k v where a: "a = (k, v)" by (cases a)
  have "fst ` set (AList.update k v d) = insert k (fst ` set d)"
    using dom_update [of k v d] by (simp add: dom_map_of_conv_image_fst)
  then show ?case by (simp add: a Cons)
qed

lemma keys_dict_of_items: "keys (dict_of_items items) = keys items"
  using keys_dict_update [of "[]" items] by (simp add: dict_of_items_def keys_def)

lemma set_dict_update: "set (dict_update d items) \<subseteq> set d \<union> set items"
  unfolding dict_update_def
proof (induction items arbitrary: d)
  case Nil
  show ?case by simp
next
  case (Cons a items)
  obtain k v where a: "a = (k, v)" by (cases a)
  from Cons [of "AList.update k v d"] set_update_subset [of k v d]
  show ?case by (auto simp: a)
qed

lemma set_dict_of_items: "set (dict_of_items items) \<subseteq> set items"
  using set_dict_update [of "[]" items] by (simp add: dict_of_items_def)

lemma dict_update_distinct_append:
  "distinct (map fst (d @ items)) \<Longrightarrow> dict_update d items = d @ items"
  unfolding dict_update_def
proof (induction items arbitrary: d)
  case Nil
  show ?case by simp
next
  case (Cons a items)
  obtain k v where a: "a = (k, v)" by (cases a)
  from Cons.prems have fresh: "k \<notin> fst ` set d" by (auto simp: a)
  have "distinct (map fst ((d @ [(k, v)]) @ items))" using Cons.prems by (simp add: a)
  from Cons.IH [OF this] show ?case by (simp add: a update_fresh [OF fresh])
qed

lemma dict_of_items_distinct: "distinct (map fst items) \<Longrightarrow> dict_of_items items = items"
  using dict_update_distinct_append [of "[]" items] by (simp add: dict_of_items_def)

lemma map_of_filter_distinct:
  "distinct (map fst d) \<Longrightarrow> (map_of (filter P d) k = Some v) = (map_of d k = Some v \<and> P (k, v))"
  by (auto simp: distinct_map_filter)

text \<open>The inverse dictionary \<^verbatim>\<open>{y: x for x, y in d.items()}\<close>: each of its entries inverts an
  entry of \<open>d\<close>, and it inverts every entry when no two keys of \<open>d\<close> share a value.\<close>

lemma inverse_sound:
  assumes d: "distinct (map fst out)"
    and m: "map_of (dict_of_items (map (\<lambda>(x, y). (y, x)) out)) y = Some x"
  shows "map_of out x = Some y"
proof -
  from m have "map_of (rev (map (\<lambda>(x, y). (y, x)) out)) y = Some x"
    by (simp add: map_of_dict_of_items)
  from map_of_SomeD [OF this] have "(x, y) \<in> set out" by auto
  with d show ?thesis by simp
qed

lemma inverse_complete:
  assumes d: "distinct (map snd out)" and m: "map_of out x = Some y"
  shows "map_of (dict_of_items (map (\<lambda>(x, y). (y, x)) out)) y = Some x"
proof -
  have "map fst (map (\<lambda>(x, y). (y, x)) out) = map snd out"
    by (simp add: comp_def case_prod_unfold)
  with d have "distinct (map fst (map (\<lambda>(x, y). (y, x)) out))"
    by (simp only:)
  then have "distinct (map fst (rev (map (\<lambda>(x, y). (y, x)) out)))"
    by (simp only: rev_map [symmetric] distinct_rev)
  moreover from map_of_SomeD [OF m] have "(y, x) \<in> set (rev (map (\<lambda>(x, y). (y, x)) out))"
    by force
  ultimately have "map_of (rev (map (\<lambda>(x, y). (y, x)) out)) y = Some x"
    by (rule map_of_is_SomeI)
  then show ?thesis by (simp add: map_of_dict_of_items)
qed

section \<open>The output and input name maps\<close>

lemma distinct_included: "distinct (map fst (included flags flds))"
  by (auto simp: included_def distinct_dict_of_items distinct_dict_update split: field_spec.splits)

lemma map_of_seed: "map_of (rev (map (\<lambda>(x, a). (x, x)) flds)) x = Some y \<Longrightarrow> y = x"
  by (auto dest!: map_of_SomeD)

lemma included_value:
  assumes "map_of (included flags flds) x = Some y"
  shows "y = spec_rename flags x"
proof (cases "flag_fields flags")
  case IncludeNone
  with assms show ?thesis
    by (auto simp: included_def spec_rename_def map_of_dict_of_items dest: map_of_seed)
next
  case (IncludeMapping m)
  with assms show ?thesis
    by (auto simp: included_def spec_rename_def map_of_dict_of_items map_of_dict_update
        map_add_def dest: map_of_seed split: if_splits option.splits)
next
  case (IncludeNames ns)
  have "y = x" if "map_of (rev (dict_of_items (map (\<lambda>x. (x, x)) ns))) x = Some y"
    using map_of_SomeD [OF that] set_dict_of_items [of "map (\<lambda>x. (x, x)) ns"] by auto
  with assms IncludeNames show ?thesis
    by (auto simp: included_def spec_rename_def map_of_dict_of_items map_of_dict_update
        map_add_def dest: map_of_seed split: if_splits option.splits)
qed

lemma keys_seed: "keys (map (\<lambda>(x, a). (x, x)) flds) = keys flds"
  by (force simp: keys_def)

lemma keys_names: "keys (map (\<lambda>x. (x, x)) ns) = set ns"
  by (force simp: keys_def)

lemma keys_included: "keys (included flags flds) \<subseteq> keys flds \<union> listed (flag_fields flags)"
  by (cases "flag_fields flags")
     (simp_all add: included_def listed_def keys_dict_of_items keys_dict_update keys_seed keys_names)

lemma named_out_included:
  "named_out env flags flds = map (\<lambda>(x, y). (x, spec_case env flags y)) (included flags flds)"
proof (cases "case_policy flags")
  case None
  then show ?thesis by (simp add: named_out_def spec_case_def)
next
  case (Some c)
  have "distinct (map fst (map (\<lambda>(x, y). (x, case_transformer env c y)) (included flags flds)))"
    using distinct_included [of flags flds] by (simp add: comp_def case_prod_unfold)
  from dict_of_items_distinct [OF this] Some show ?thesis
    by (simp add: named_out_def spec_case_def)
qed

lemma included_exclude: "included (flags\<lparr>exclude := e\<rparr>) flds = included flags flds"
  by (simp add: included_def)

lemma named_out_exclude: "named_out env (flags\<lparr>exclude := e\<rparr>) flds = named_out env flags flds"
  by (simp add: named_out_def included_exclude split: option.splits)

lemma omit_fields_subset:
  "omit_fields env flds tos tnos items acc = Inr r \<Longrightarrow> set r \<subseteq> set acc \<union> set items"
proof (induction items arbitrary: acc)
  case Nil
  then show ?case by simp
next
  case (Cons a items)
  obtain name out where a: "a = (name, out)" by (cases a)
  from Cons.prems obtain an where an: "map_of flds name = Some an"
    by (auto simp: a split: option.splits)
  from Cons.prems an obtain acc' where
    r: "omit_fields env flds tos tnos items acc' = Inr r" and
    acc': "acc' = AList.update name out acc \<or> acc' = acc"
    by (simp add: a Let_def split: if_splits)
  from Cons.IH [OF r] acc' set_update_subset [of name out acc] show ?case by (auto simp: a)
qed

lemma omit_fields_distinct:
  "omit_fields env flds tos tnos items acc = Inr r \<Longrightarrow> distinct (map fst acc) \<Longrightarrow>
   distinct (map fst r)"
proof (induction items arbitrary: acc)
  case Nil
  then show ?case by simp
next
  case (Cons a items)
  obtain name out where a: "a = (name, out)" by (cases a)
  from Cons.prems(1) obtain an where an: "map_of flds name = Some an"
    by (auto simp: a split: option.splits)
  from Cons.prems(1) an obtain acc' where
    r: "omit_fields env flds tos tnos items acc' = Inr r" and
    acc': "acc' = AList.update name out acc \<or> acc' = acc"
    by (simp add: a Let_def split: if_splits)
  from acc' Cons.prems(2) have "distinct (map fst acc')" by (auto simp: distinct_update)
  from Cons.IH [OF r this] show ?case .
qed

lemma filter_all: "filter (\<lambda>(x, y). x \<notin> set []) zs = zs"
  by (simp add: case_prod_unfold)

text \<open>A configuration is that of the same flags without \<^verbatim>\<open>exclude\<close>, with the excluded
  names filtered from the output map.\<close>

lemma configure_exclude:
  "configure env flags params flds0 =
     (case configure env (flags\<lparr>exclude := []\<rparr>) params flds0 of
        Inl e \<Rightarrow> Inl e
      | Inr c \<Rightarrow>
          Inr (SerdeConfig flags (cfg_fields c)
                 (filter (\<lambda>(x, y). x \<notin> set (exclude flags)) (fields_out c))
                 (fields_in c) (fields_getters c) (omit_values c)))"
  by (cases "exclude flags = []")
     (auto simp: configure_def Let_def filter_all named_out_exclude split: sum.splits)

lemma configure_no_exclude:
  assumes "configure env (flags\<lparr>exclude := []\<rparr>) params flds0 = Inr c"
  shows "set (fields_out c) \<subseteq> set (named_out env flags (cfg_fields c))"
    and "distinct (map fst (fields_out c))"
    and "fields_in c = (if params \<noteq> []
                        then filter (\<lambda>(x, y). y \<in> set params)
                               (dict_of_items (map (\<lambda>(x, y). (y, x)) (fields_out c)))
                        else dict_of_items (map (\<lambda>(x, y). (y, x)) (fields_out c)))"
proof -
  define flds where "flds = (if signature_only flags
                  then filter (\<lambda>(x, a). x \<in> set params) flds0 else flds0)"
  define tos where "tos = filter (\<lambda>o'. type_check env o' \<or> o' = NotImplemented) (omit flags)"
  have dn: "distinct (map fst (named_out env flags flds))"
    using distinct_included [of flags flds]
    by (simp add: named_out_included comp_def case_prod_unfold)
  from assms obtain out4 where
    c: "c = SerdeConfig (flags\<lparr>exclude := []\<rparr>) flds out4
          (if params \<noteq> []
           then filter (\<lambda>(x, y). y \<in> set params) (dict_of_items (map (\<lambda>(x, y). (y, x)) out4))
           else dict_of_items (map (\<lambda>(x, y). (y, x)) out4))
          (dict_of_items (map (\<lambda>(x, a). (x, x)) flds))
          (if omit flags \<noteq> [] then filter (\<lambda>o'. o' \<notin> set tos) (omit flags) else [])" and
    o: "(if omit flags \<noteq> []
         then omit_fields env flds tos (map (get_name env) tos) (named_out env flags flds) []
         else Inr (named_out env flags flds)) = Inr out4"
    by (auto simp: configure_def Let_def flds_def tos_def named_out_exclude
        split: sum.splits if_splits)
  have sub: "set out4 \<subseteq> set (named_out env flags flds)"
    using o omit_fields_subset [of env flds _ _ "named_out env flags flds" "[]" out4]
    by (auto split: if_splits)
  have dis: "distinct (map fst out4)"
    using o dn omit_fields_distinct [of env flds _ _ "named_out env flags flds" "[]" out4]
    by (auto split: if_splits)
  show "set (fields_out c) \<subseteq> set (named_out env flags (cfg_fields c))" using sub by (simp add: c)
  show "distinct (map fst (fields_out c))" using dis by (simp add: c)
  show "fields_in c = (if params \<noteq> []
                        then filter (\<lambda>(x, y). y \<in> set params)
                               (dict_of_items (map (\<lambda>(x, y). (y, x)) (fields_out c)))
                        else dict_of_items (map (\<lambda>(x, y). (y, x)) (fields_out c)))"
    by (simp add: c)
qed

text \<open>
  C5, as the code has it. The output name of a field is the case conversion of its renamed
  name: the map is seeded with the field's own name, an explicit rename replaces that name,
  and the case policy is then applied to whatever name is there, a renamed one included.
\<close>

theorem rename_then_case:
  assumes "configure env flags params flds0 = Inr cfg" and "(x, y) \<in> set (fields_out cfg)"
  shows "y = spec_case env flags (spec_rename flags x)"
proof -
  from assms(1) obtain c where
    c: "configure env (flags\<lparr>exclude := []\<rparr>) params flds0 = Inr c" and
    out: "fields_out cfg = filter (\<lambda>(x, y). x \<notin> set (exclude flags)) (fields_out c)"
    by (subst (asm) configure_exclude) (auto split: sum.splits)
  from assms(2) out have "(x, y) \<in> set (fields_out c)" by simp
  with configure_no_exclude(1) [OF c]
  have "(x, y) \<in> set (named_out env flags (cfg_fields c))" by blast
  then obtain y0 where y0: "(x, y0) \<in> set (included flags (cfg_fields c))"
    and y: "y = spec_case env flags y0"
    by (auto simp: named_out_included)
  from y0 distinct_included [of flags "cfg_fields c"]
  have "map_of (included flags (cfg_fields c)) x = Some y0" by simp
  from included_value [OF this] y show ?thesis by simp
qed

lemma example_env_case:
  "case_transformer example_env = (\<lambda>c. if c = ''camelCase'' then camel False else (\<lambda>x. x))"
  by (simp add: example_env_def)

lemma example_env_type_check:
  "type_check example_env = (\<lambda>v. case v of Class _ \<Rightarrow> True | Generic _ _ \<Rightarrow> True
                        | NewType _ _ \<Rightarrow> True | ForwardRef _ \<Rightarrow> True | _ \<Rightarrow> False)"
  by (simp add: example_env_def)

lemmas configure_eval = configure_def named_out_def included_def Let_def dict_of_items_def
  dict_update_def default_flags_def example_fields_def upper_def example_env_case
  example_env_type_check

text \<open>
  C5 as the specification states it fails: with the rename \<^verbatim>\<open>user_name -> display_name\<close> and
  the camel-case policy, the output name of \<^verbatim>\<open>user_name\<close> is \<^verbatim>\<open>displayName\<close>, not the
  renamed name \<^verbatim>\<open>display_name\<close>.
\<close>

theorem rename_then_case_counterexample:
  "configure example_env
     (default_flags\<lparr>flag_fields := IncludeMapping [(''user_name'', ''display_name'')],
                    case_policy := Some ''camelCase''\<rparr>)
     [''id'', ''user_name''] example_fields =
   Inr (SerdeConfig
     (default_flags\<lparr>flag_fields := IncludeMapping [(''user_name'', ''display_name'')],
                    case_policy := Some ''camelCase''\<rparr>)
     example_fields
     [(''id'', ''id''), (''user_name'', ''displayName'')]
     [(''id'', ''id''), (''displayName'', ''user_name'')]
     [(''id'', ''id''), (''user_name'', ''user_name'')] [])
   \<and> ''displayName'' \<noteq> ''display_name''"
  by (simp add: configure_eval)

theorem rename_then_case_witness:
  "configure example_env
     (default_flags\<lparr>flag_fields := IncludeMapping [(''user_name'', ''display_name'')],
                    case_policy := Some ''camelCase''\<rparr>)
     [''id'', ''user_name''] example_fields =
   Inr (SerdeConfig
     (default_flags\<lparr>flag_fields := IncludeMapping [(''user_name'', ''display_name'')],
                    case_policy := Some ''camelCase''\<rparr>)
     example_fields
     [(''id'', ''id''), (''user_name'', ''displayName'')]
     [(''id'', ''id''), (''displayName'', ''user_name'')]
     [(''id'', ''id''), (''user_name'', ''user_name'')] [])
   \<and> ''displayName'' =
       spec_case example_env
         (default_flags\<lparr>flag_fields := IncludeMapping [(''user_name'', ''display_name'')],
                        case_policy := Some ''camelCase''\<rparr>)
         (spec_rename
            (default_flags\<lparr>flag_fields := IncludeMapping [(''user_name'', ''display_name'')],
                           case_policy := Some ''camelCase''\<rparr>) ''user_name'')"
  (is "?run = Inr ?cfg \<and> ?name")
proof -
  have run: "?run = Inr ?cfg" by (simp add: configure_eval)
  have mem: "(''user_name'', ''displayName'') \<in> set (fields_out ?cfg)" by simp
  from rename_then_case [OF run mem] have ?name .
  with run show ?thesis by (rule conjI)
qed

text \<open>
  C6, as the code has it. The keys of \<^verbatim>\<open>fields_out\<close> are fields or names listed in
  \<^verbatim>\<open>flags.fields\<close>. \<^verbatim>\<open>fields_in\<close> inverts the output map as it is before \<^verbatim>\<open>exclude\<close> is
  applied, which is the output map of the same flags without \<^verbatim>\<open>exclude\<close>: each of its
  entries inverts an entry of that map whose field the constructor accepts (any field when
  the constructor has no parameters), and every such entry is inverted when no two fields
  share an output name.
\<close>

theorem fields_out_keys_fields_in:
  assumes "configure env flags params flds0 = Inr cfg"
  shows "keys (fields_out cfg) \<subseteq> keys (cfg_fields cfg) \<union> listed (flag_fields flags) \<and>
         (\<exists>c. configure env (flags\<lparr>exclude := []\<rparr>) params flds0 = Inr c \<and>
              (\<forall>y x. map_of (fields_in cfg) y = Some x \<longrightarrow>
                     map_of (fields_out c) x = Some y \<and> (params = [] \<or> x \<in> set params)) \<and>
              (distinct (map snd (fields_out c)) \<longrightarrow>
               (\<forall>x y. map_of (fields_out c) x = Some y \<longrightarrow> params = [] \<or> x \<in> set params \<longrightarrow>
                      map_of (fields_in cfg) y = Some x)))"
proof -
  from assms obtain c where
    c: "configure env (flags\<lparr>exclude := []\<rparr>) params flds0 = Inr c" and
    out: "fields_out cfg = filter (\<lambda>(x, y). x \<notin> set (exclude flags)) (fields_out c)" and
    fin: "fields_in cfg = fields_in c" and
    fl: "cfg_fields cfg = cfg_fields c"
    by (subst (asm) configure_exclude) (auto split: sum.splits)
  note sub = configure_no_exclude(1) [OF c]
  note dis = configure_no_exclude(2) [OF c]
  note inv = configure_no_exclude(3) [OF c]
  let ?inv = "dict_of_items (map (\<lambda>(x, y). (y, x)) (fields_out c))"
  have dinv: "distinct (map fst ?inv)" by (rule distinct_dict_of_items)
  have "keys (fields_out cfg) \<subseteq> keys (fields_out c)"
    by (auto simp: out keys_def)
  also have "\<dots> \<subseteq> keys (named_out env flags (cfg_fields c))"
    using sub by (auto simp: keys_def)
  also have "\<dots> = keys (included flags (cfg_fields c))"
    by (force simp: named_out_included keys_def)
  also have "\<dots> \<subseteq> keys (cfg_fields c) \<union> listed (flag_fields flags)"
    by (rule keys_included)
  finally have k: "keys (fields_out cfg) \<subseteq> keys (cfg_fields cfg) \<union> listed (flag_fields flags)"
    by (simp add: fl)
  have sound: "map_of (fields_out c) x = Some y \<and> (params = [] \<or> x \<in> set params)"
    if "map_of (fields_in cfg) y = Some x" for x y
  proof (cases "params = []")
    case True
    with that inverse_sound [OF dis] show ?thesis by (simp add: fin inv)
  next
    case False
    with that have "map_of ?inv y = Some x \<and> x \<in> set params"
      by (simp add: fin inv map_of_filter_distinct [OF dinv])
    with inverse_sound [OF dis] show ?thesis by blast
  qed
  have complete: "map_of (fields_in cfg) y = Some x"
    if "distinct (map snd (fields_out c))" "map_of (fields_out c) x = Some y"
       "params = [] \<or> x \<in> set params" for x y
  proof -
    from inverse_complete [OF that(1,2)] have i: "map_of ?inv y = Some x" .
    show ?thesis
    proof (cases "params = []")
      case True
      with i show ?thesis by (simp add: fin inv)
    next
      case False
      with i that(3) show ?thesis by (simp add: fin inv map_of_filter_distinct [OF dinv])
    qed
  qed
  from k c sound complete show ?thesis by blast
qed

text \<open>
  C6 as the specification states it fails: with \<^verbatim>\<open>fields = {full_name: fullName}\<close> and
  \<^verbatim>\<open>exclude = {id}\<close> on the fields \<^verbatim>\<open>id\<close> and \<^verbatim>\<open>user_name\<close>, the output map has the key
  \<^verbatim>\<open>full_name\<close>, which is not a field, and the input map sends \<^verbatim>\<open>id\<close> to \<^verbatim>\<open>id\<close>, which the
  output map does not have.
\<close>

theorem fields_out_keys_fields_in_counterexample:
  "configure example_env
     (default_flags\<lparr>flag_fields := IncludeMapping [(''full_name'', ''fullName'')],
                    exclude := [''id'']\<rparr>)
     [''id'', ''user_name''] example_fields =
   Inr (SerdeConfig
     (default_flags\<lparr>flag_fields := IncludeMapping [(''full_name'', ''fullName'')],
                    exclude := [''id'']\<rparr>)
     example_fields
     [(''user_name'', ''user_name''), (''full_name'', ''fullName'')]
     [(''id'', ''id''), (''user_name'', ''user_name'')]
     [(''id'', ''id''), (''user_name'', ''user_name'')] [])
   \<and> ''full_name'' \<in> keys [(''user_name'', ''user_name''), (''full_name'', ''fullName'')]
   \<and> ''full_name'' \<notin> keys example_fields
   \<and> map_of [(''id'', ''id''), (''user_name'', ''user_name'')] ''id'' = Some ''id''
   \<and> map_of [(''user_name'', ''user_name''), (''full_name'', ''fullName'')] ''id'' = None"
  by (simp add: configure_eval keys_def)

theorem fields_out_keys_fields_in_witness:
  "configure example_env
     (default_flags\<lparr>flag_fields := IncludeMapping [(''full_name'', ''fullName'')],
                    exclude := [''id'']\<rparr>)
     [''id'', ''user_name''] example_fields =
   Inr (SerdeConfig
     (default_flags\<lparr>flag_fields := IncludeMapping [(''full_name'', ''fullName'')],
                    exclude := [''id'']\<rparr>)
     example_fields
     [(''user_name'', ''user_name''), (''full_name'', ''fullName'')]
     [(''id'', ''id''), (''user_name'', ''user_name'')]
     [(''id'', ''id''), (''user_name'', ''user_name'')] [])
   \<and> keys [(''user_name'', ''user_name''), (''full_name'', ''fullName'')]
       \<subseteq> keys example_fields \<union> listed (IncludeMapping [(''full_name'', ''fullName'')])"
  (is "?run = Inr ?cfg \<and> ?sub")
proof -
  have run: "?run = Inr ?cfg" by (simp add: configure_eval)
  from fields_out_keys_fields_in [OF run] have ?sub by simp
  with run show ?thesis by (rule conjI)
qed

text \<open>
  C9. \<^verbatim>\<open>exclude\<close> only filters the output map: the configuration is that of the same flags
  without \<^verbatim>\<open>exclude\<close>, input map included, but for the excluded names missing from the
  output map. For the fields \<^verbatim>\<open>id\<close> and \<^verbatim>\<open>user_name\<close>, a case policy that turns
  \<^verbatim>\<open>user_name\<close> into \<^verbatim>\<open>userName\<close> and \<^verbatim>\<open>exclude = {id}\<close>, the output map is exactly
  \<^verbatim>\<open>{user_name: userName}\<close>.
\<close>

theorem exclude_last_output_only:
  "configure env flags params flds0 =
     (case configure env (flags\<lparr>exclude := []\<rparr>) params flds0 of
        Inl e \<Rightarrow> Inl e
      | Inr c \<Rightarrow>
          Inr (SerdeConfig flags (cfg_fields c)
                 (filter (\<lambda>(x, y). x \<notin> set (exclude flags)) (fields_out c))
                 (fields_in c) (fields_getters c) (omit_values c)))
   \<and> (policy \<noteq> [] \<longrightarrow> case_transformer env policy ''user_name'' = ''userName'' \<longrightarrow>
        map_sum id fields_out
          (configure env (default_flags\<lparr>case_policy := Some policy, exclude := [''id'']\<rparr>) ps
             [(''id'', a1), (''user_name'', a2)]) = Inr [(''user_name'', ''userName'')])"
proof
  show "configure env flags params flds0 =
     (case configure env (flags\<lparr>exclude := []\<rparr>) params flds0 of
        Inl e \<Rightarrow> Inl e
      | Inr c \<Rightarrow>
          Inr (SerdeConfig flags (cfg_fields c)
                 (filter (\<lambda>(x, y). x \<notin> set (exclude flags)) (fields_out c))
                 (fields_in c) (fields_getters c) (omit_values c)))"
    by (rule configure_exclude)
  show "policy \<noteq> [] \<longrightarrow> case_transformer env policy ''user_name'' = ''userName'' \<longrightarrow>
        map_sum id fields_out
          (configure env (default_flags\<lparr>case_policy := Some policy, exclude := [''id'']\<rparr>) ps
             [(''id'', a1), (''user_name'', a2)]) = Inr [(''user_name'', ''userName'')]"
    by (simp add: configure_def named_out_def included_def Let_def dict_of_items_def
        dict_update_def default_flags_def)
qed

theorem exclude_last_output_only_witness:
  "''camelCase'' \<noteq> [] \<and> case_transformer example_env ''camelCase'' ''user_name'' = ''userName''
   \<and> map_sum id fields_out
       (configure example_env
          (default_flags\<lparr>case_policy := Some ''camelCase'', exclude := [''id'']\<rparr>)
          [''id'', ''user_name'']
          [(''id'', DelayedAnnotation (Class ''int'') None None False False default_flags EMPTY),
           (''user_name'', DelayedAnnotation (Class ''str'') None None False False default_flags
              EMPTY)]) = Inr [(''user_name'', ''userName'')]
   \<and> map_sum id fields_in
       (configure example_env
          (default_flags\<lparr>case_policy := Some ''camelCase'', exclude := [''id'']\<rparr>)
          [''id'', ''user_name'']
          [(''id'', DelayedAnnotation (Class ''int'') None None False False default_flags EMPTY),
           (''user_name'', DelayedAnnotation (Class ''str'') None None False False default_flags
              EMPTY)]) = Inr [(''id'', ''id''), (''userName'', ''user_name'')]"
  (is "?p \<and> ?t \<and> ?out \<and> ?in")
proof -
  have p: ?p by simp
  have t: ?t by (simp add: example_env_case upper_def)
  from exclude_last_output_only [THEN conjunct2, rule_format, OF p t] have out: ?out .
  have ?in by (simp add: configure_eval)
  with p t out show ?thesis by blast
qed

section \<open>Nested flags\<close>

lemma config_fields_reset:
  "config_fields env self_annotation orig (flags\<lparr>flag_fields := f\<rparr>) hints flds s =
   config_fields env self_annotation orig flags hints flds s"
proof (induction hints arbitrary: flds s)
  case Nil
  show ?case by simp
next
  case (Cons h hints)
  obtain name t where h: "h = (name, t)" by (cases h)
  show ?case by (simp add: h Cons split: option.splits sum.splits prod.splits)
qed

lemma config_fields_probe:
  "config_fields env probe orig flags hints flds s =
   Some (Inr (dict_update flds
                (map (\<lambda>(name, t).
                        (name, DelayedAnnotation t None None False False
                                 (flags\<lparr>flag_fields := IncludeMapping []\<rparr>)
                                 (class_attr env orig name))) hints)), s)"
proof (induction hints arbitrary: flds)
  case Nil
  show ?case by (simp add: dict_update_def)
next
  case (Cons h hints)
  obtain name t where h: "h = (name, t)" by (cases h)
  have call: "probe t None None None None (Some (flags\<lparr>flag_fields := IncludeMapping []\<rparr>))
                (class_attr env orig name) orig s =
              Some (Inr (DelayedAnnotation t None None False False
                           (flags\<lparr>flag_fields := IncludeMapping []\<rparr>)
                           (class_attr env orig name)), s)"
    by (simp add: probe_def)
  show ?case by (simp add: h call Cons) (simp add: dict_update_def)
qed

text \<open>
  C8, as the code has it. The flags a field's type is canonicalized with are the enclosing
  flags with \<^verbatim>\<open>fields\<close> alone reset (line 292): the canonicalized fields do not depend on
  the include and rename rules of the enclosing flags, and each call of \<^verbatim>\<open>self.annotation\<close>
  receives the enclosing flags with an empty \<^verbatim>\<open>fields\<close> and every other setting, \<^verbatim>\<open>exclude\<close>
  among them, as it is.
\<close>

theorem nested_flags_reset:
  "config_fields env self_annotation orig (flags\<lparr>flag_fields := f\<rparr>) hints flds s =
     config_fields env self_annotation orig flags hints flds s \<and>
   config_fields env probe orig flags hints flds s =
     Some (Inr (dict_update flds
                  (map (\<lambda>(name, t).
                          (name, DelayedAnnotation t None None False False
                                   (flags\<lparr>flag_fields := IncludeMapping []\<rparr>)
                                   (class_attr env orig name))) hints)), s)"
  using config_fields_reset config_fields_probe by (rule conjI)

theorem nested_flags_reset_witness:
  "config_fields example_env (annotation 1 example_env) (Class ''Outer'')
     (default_flags\<lparr>flag_fields := IncludeMapping [(''x'', ''y'')]\<rparr>)
     (example_hints (Class ''Outer'')) [] init_state =
   config_fields example_env (annotation 1 example_env) (Class ''Outer'') default_flags
     (example_hints (Class ''Outer'')) [] init_state"
  using nested_flags_reset by (rule conjunct1)

text \<open>
  C8 as the specification states it fails: \<^verbatim>\<open>Outer\<close> canonicalized with \<^verbatim>\<open>exclude = {id}\<close>
  gives its field \<^verbatim>\<open>inner: Inner\<close> an output map without \<^verbatim>\<open>id\<close>, where the default flags
  give it the map of both fields of \<^verbatim>\<open>Inner\<close>.
\<close>

theorem nested_flags_reset_counterexample:
  "map_option (nested_fields_out ''inner'')
     (returned (annotation 2 example_env (Class ''Outer'') None None None None
        (Some (default_flags\<lparr>exclude := [''id'']\<rparr>)) EMPTY NoneV init_state)) =
   Some [(''x'', ''x'')] \<and>
   map_option (nested_fields_out ''inner'')
     (returned (annotation 2 example_env (Class ''Outer'') None None None None
        (Some default_flags) EMPTY NoneV init_state)) =
   Some [(''id'', ''id''), (''x'', ''x'')]"
  by code_simp

section \<open>The deprecated alias\<close>

text \<open>
  C10. \<^verbatim>\<open>coerce_value(value, annotation)\<close> gives what \<^verbatim>\<open>transmute(annotation, value)\<close> gives in
  the same state, result and state after, and issues one more warning.
\<close>

theorem coerce_value_delegates:
  "fst (coerce_value n env value t s issued) = transmute n env t value s \<and>
   (\<exists>w. snd (coerce_value n env value t s issued) = issued @ [w])"
  by (simp add: coerce_value_def Let_def)

theorem coerce_value_delegates_witness:
  "fst (coerce_value 1 example_env (IntV 1) (Class ''int'') init_state []) =
     transmute 1 example_env (Class ''int'') (IntV 1) init_state \<and>
   returned (transmute 1 example_env (Class ''int'') (IntV 1) init_state) = Some (IntV 1)"
proof -
  from coerce_value_delegates [of 1 example_env "IntV 1" "Class ''int''" init_state "[]"]
  have "fst (coerce_value 1 example_env (IntV 1) (Class ''int'') init_state []) =
     transmute 1 example_env (Class ''int'') (IntV 1) init_state" by (rule conjunct1)
  moreover have "returned (transmute 1 example_env (Class ''int'') (IntV 1) init_state) =
     Some (IntV 1)" by code_simp
  ultimately show ?thesis by (rule conjI)
qed

section \<open>Literal legality\<close>

lemma annotation_unfold: "\<exists>self_annotation. annotation n env = annotation_body env self_annotation"
  by (cases n) auto

lemma canonical_plain:
  assumes "\<not> should_unwrap env (resolve_supertype t)"
  shows "c_use (canonical env t name par opt str fl dflt) = resolve_supertype t"
    and "c_literal (canonical env t name par opt str fl dflt) = isliteral env (resolve_supertype t)"
  using assms by (simp_all add: canonical_def Let_def unwrap.simps)

lemma annotation_body_literal:
  assumes lit: "isliteral env (resolve_supertype t)"
    and nu: "\<not> should_unwrap env (resolve_supertype t)"
  shows "(\<exists>a \<in> set (get_args (resolve_supertype t)). \<not> isinstance_LITERALS a) \<Longrightarrow>
           annotation_body env self_annotation t name par opt str fl dflt ns s =
             Some (Inl (TypeError (get_args (resolve_supertype t))), s)"
    and "(\<forall>a \<in> set (get_args (resolve_supertype t)). isinstance_LITERALS a) \<Longrightarrow>
           \<exists>a s'. annotation_body env self_annotation t name par opt str fl dflt ns s =
             Some (Inr a, s')"
  using lit by (auto simp: annotation_body_def Let_def canonical_plain [OF nu])

text \<open>
  C2. For a literal type (one the unwrapping loop leaves as it is), canonicalization raises
  \<^verbatim>\<open>TypeError\<close> with the type's arguments when one of them is not an instance of
  \<^verbatim>\<open>LITERALS\<close>, in the state it was called in, and so does \<^verbatim>\<open>resolve\<close> before it builds
  anything; when all of them are, canonicalization returns.
\<close>

theorem literal_legality:
  assumes "isliteral env (resolve_supertype t)" and "\<not> should_unwrap env (resolve_supertype t)"
  shows "((\<exists>a \<in> set (get_args (resolve_supertype t)). \<not> isinstance_LITERALS a) \<longrightarrow>
            annotation n env t name par opt str fl dflt ns s =
              Some (Inl (TypeError (get_args (resolve_supertype t))), s) \<and>
            resolve_body n env (a\<lparr>arg_annotation := t\<rparr>) s =
              Some (Inl (TypeError (get_args (resolve_supertype t))), s)) \<and>
         ((\<forall>a \<in> set (get_args (resolve_supertype t)). isinstance_LITERALS a) \<longrightarrow>
            (\<exists>an s'. annotation n env t name par opt str fl dflt ns s = Some (Inr an, s')))"
proof -
  obtain self_annotation where u: "annotation n env = annotation_body env self_annotation"
    using annotation_unfold by blast
  show ?thesis
    using annotation_body_literal [OF assms, of self_annotation]
    by (simp add: u resolve_body_def)
qed

theorem literal_legality_witness:
  "annotation 0 example_env (Generic ''Literal'' [IntV 1, FloatV ''1.5'']) None None None None
     None EMPTY NoneV init_state =
     Some (Inl (TypeError [IntV 1, FloatV ''1.5'']), init_state) \<and>
   resolve_body 0 example_env (plain (Generic ''Literal'' [IntV 1, FloatV ''1.5''])) init_state =
     Some (Inl (TypeError [IntV 1, FloatV ''1.5'']), init_state) \<and>
   (\<exists>an s'. annotation 0 example_env (Generic ''Literal'' [IntV 1, StrV ''a'', NoneV]) None None
      None None None EMPTY NoneV init_state = Some (Inr an, s'))"
proof -
  let ?bad = "Generic ''Literal'' [IntV 1, FloatV ''1.5'']"
  let ?good = "Generic ''Literal'' [IntV 1, StrV ''a'', NoneV]"
  have bad: "isliteral example_env (resolve_supertype ?bad)"
    "\<not> should_unwrap example_env (resolve_supertype ?bad)"
    "\<exists>a \<in> set (get_args (resolve_supertype ?bad)). \<not> isinstance_LITERALS a"
    by code_simp+
  have good: "isliteral example_env (resolve_supertype ?good)"
    "\<not> should_unwrap example_env (resolve_supertype ?good)"
    "\<forall>a \<in> set (get_args (resolve_supertype ?good)). isinstance_LITERALS a"
    by code_simp+
  have args: "get_args (resolve_supertype ?bad) = [IntV 1, FloatV ''1.5'']"
    by (simp add: get_args_def)
  have plain: "(plain ?bad)\<lparr>arg_annotation := ?bad\<rparr> = plain ?bad"
    by (simp add: plain_def)
  from literal_legality [OF bad(1,2), of 0 None None None None None EMPTY NoneV init_state
      "plain ?bad"] bad(3)
  have 1: "annotation 0 example_env ?bad None None None None None EMPTY NoneV init_state =
             Some (Inl (TypeError [IntV 1, FloatV ''1.5'']), init_state) \<and>
           resolve_body 0 example_env (plain ?bad) init_state =
             Some (Inl (TypeError [IntV 1, FloatV ''1.5'']), init_state)"
    unfolding args plain by blast
  from literal_legality [OF good(1,2), of 0 None None None None None EMPTY NoneV init_state]
    good(3)
  have 2: "\<exists>an s'. annotation 0 example_env ?good None None None None None EMPTY NoneV
             init_state = Some (Inr an, s')"
    by blast
  from 1 2 show ?thesis by blast
qed

section \<open>What canonicalization leaves alone\<close>

lemma frame_refl: "frame s s"
  by (simp add: frame_def)

lemma frame_trans: "frame s s1 \<Longrightarrow> frame s1 s2 \<Longrightarrow> frame s s2"
  by (simp add: frame_def)

lemma preservesD:
  "preserves f \<Longrightarrow> f t name par opt str fl dflt ns s = Some (r, s') \<Longrightarrow> frame s s'"
  unfolding preserves_def by blast

lemma config_fields_frame:
  assumes "preserves self_annotation"
  shows "config_fields env self_annotation orig flags hints flds s = Some (r, s') \<Longrightarrow> frame s s'"
proof (induction hints arbitrary: flds s)
  case Nil
  then show ?case by (simp add: frame_refl)
next
  case (Cons h hints)
  obtain name t where h: "h = (name, t)" by (cases h)
  let ?call = "self_annotation t None None None None
                 (Some (flags\<lparr>flag_fields := IncludeMapping []\<rparr>)) (class_attr env orig name)
                 orig s"
  from Cons.prems obtain r1 s1 where call: "?call = Some (r1, s1)"
    by (cases ?call) (auto simp: h)
  have f1: "frame s s1" using preservesD [OF assms call] .
  show ?case
  proof (cases r1)
    case (Inl e)
    with Cons.prems call f1 show ?thesis by (simp add: h)
  next
    case (Inr a)
    with Cons.prems call
    have "config_fields env self_annotation orig flags hints (AList.update name a flds) s1 =
            Some (r, s')"
      by (simp add: h)
    from frame_trans [OF f1 Cons.IH [OF this]] show ?thesis .
  qed
qed

lemma get_configuration_frame:
  assumes "preserves self_annotation"
    and "get_configuration env self_annotation orig flags s = Some (r, s')"
  shows "frame s s'"
proof -
  have body: "frame s s1"
    if "get_configuration_body env self_annotation orig flags s = Some (r1, s1)" for r1 s1
    using that config_fields_frame [OF assms(1)]
    by (auto simp: get_configuration_body_def Let_def split: option.splits sum.splits prod.splits)
  from assms(2) show ?thesis
    unfolding get_configuration_def lru_cache_def
    by (auto simp: frame_def split: option.splits sum.splits prod.splits dest!: body)
qed

lemma annotation_body_frame:
  assumes "preserves self_annotation"
  shows "preserves (annotation_body env self_annotation)"
  unfolding preserves_def
proof (intro allI impI)
  fix t name par opt str fl dflt ns s r s'
  assume a: "annotation_body env self_annotation t name par opt str fl dflt ns s = Some (r, s')"
  have cfg: "frame s0 s1"
    if "get_configuration env self_annotation orig flags s0 = Some (r1, s1)"
    for orig flags s0 r1 s1
    using get_configuration_frame [OF assms that] .
  from a show "frame s s'"
    unfolding annotation_body_def Let_def
    by (auto simp: frame_def split: if_splits option.splits sum.splits prod.splits dest!: cfg)
qed

lemma annotation_frame: "preserves (annotation n env)"
proof (induction n)
  case 0
  have "preserves (\<lambda>_ _ _ _ _ _ _ _ _. None)" by (simp add: preserves_def)
  then show ?case by (simp add: annotation_body_frame)
next
  case (Suc n)
  then show ?case by (simp add: annotation_body_frame)
qed

lemma resolve_from_annotation_memo:
  "resolve_from_annotation env an d sr ns s = Some (r, s') \<Longrightarrow>
   resolve_memo s' = resolve_memo s \<and> stack s' = stack s"
  unfolding resolve_from_annotation_def lru_cache_def resolve_from_annotation_body_def Let_def
  by (auto split: option.splits sum.splits prod.splits if_splits)

lemma resolve_body_memo:
  assumes "resolve_body n env a s = Some (r, s')"
  shows "resolve_memo s' = resolve_memo s"
proof -
  have ann: "resolve_memo s1 = resolve_memo s0"
    if "annotation n env t name par opt str fl dflt ns s0 = Some (r1, s1)"
    for t name par opt str fl dflt ns s0 r1 s1
    using preservesD [OF annotation_frame that] by (simp add: frame_def)
  from assms show ?thesis
    unfolding resolve_body_def
    by (auto split: option.splits sum.splits prod.splits
        dest!: ann resolve_from_annotation_memo)
qed

text \<open>On the path of \<^verbatim>\<open>resolve\<close> that returns, \<^verbatim>\<open>self.__stack.clear()\<close> has run.\<close>

lemma resolve_body_clears_stack: "resolve_body n env a s = Some (Inr p, s') \<Longrightarrow> stack s' = {}"
  unfolding resolve_body_def
  by (auto split: option.splits sum.splits prod.splits)

section \<open>Memoized resolution\<close>

lemma resolve_keeps_memo:
  assumes "map_of (resolve_memo s) a = Some p" and "resolve n env b s = Some (r, s')"
  shows "map_of (resolve_memo s') a = Some p"
proof (cases "map_of (resolve_memo s) b")
  case (Some v)
  with assms show ?thesis by (simp add: resolve_def lru_cache_def)
next
  case None
  with assms(1) have ne: "b \<noteq> a" by auto
  from assms(2) None obtain r1 s1 where body: "resolve_body n env b s = Some (r1, s1)"
    by (auto simp: resolve_def lru_cache_def split: option.splits)
  from resolve_body_memo [OF body] have m: "resolve_memo s1 = resolve_memo s" .
  from assms(2) None body ne m assms(1) show ?thesis
    by (auto simp: resolve_def lru_cache_def update_conv' split: sum.splits)
qed

lemma resolve_many_keeps_memo:
  "map_of (resolve_memo s) a = Some p \<Longrightarrow> resolve_many env calls s = Some s' \<Longrightarrow>
   map_of (resolve_memo s') a = Some p"
proof (induction calls arbitrary: s)
  case Nil
  then show ?case by simp
next
  case (Cons c calls)
  obtain n b where c: "c = (n, b)" by (cases c)
  from Cons.prems(2) obtain r s1 where
    call: "resolve n env b s = Some (r, s1)" and rest: "resolve_many env calls s1 = Some s'"
    by (auto simp: c split: option.splits)
  from Cons.IH [OF resolve_keeps_memo [OF Cons.prems(1) call] rest] show ?case .
qed

lemma resolve_returns_memo:
  assumes "resolve n env a s = Some (Inr p, s1)"
  shows "map_of (resolve_memo s1) a = Some p"
  using assms
  by (auto simp: resolve_def lru_cache_def update_conv' split: option.splits sum.splits prod.splits)

lemma returned_cases:
  assumes "case r of Some (Inr p, s1) \<Rightarrow> Q p s1 | _ \<Rightarrow> False"
  shows "\<exists>p s1. r = Some (Inr p, s1) \<and> Q p s1"
proof (cases r)
  case None
  with assms show ?thesis by simp
next
  case (Some x)
  obtain y s where x: "x = (y, s)" by (cases x)
  from assms Some x show ?thesis by (cases y) simp_all
qed

lemma some_cases: "(case m of Some s2 \<Rightarrow> Q s2 | None \<Rightarrow> False) \<Longrightarrow> \<exists>s2. m = Some s2 \<and> Q s2"
  by (auto split: option.splits)

text \<open>
  C1. Once \<^verbatim>\<open>resolve\<close> has returned a protocol for some arguments, a later call with the
  same arguments, after any calls of \<^verbatim>\<open>resolve\<close> in between, returns that protocol, the
  object of the same identity, and leaves the state as it is: nothing is allocated and
  nothing is built.
\<close>

theorem resolve_idempotent:
  assumes "resolve n env a s = Some (Inr p, s1)" and "resolve_many env calls s1 = Some s2"
  shows "resolve m env a s2 = Some (Inr p, s2)"
proof -
  from resolve_many_keeps_memo [OF resolve_returns_memo [OF assms(1)] assms(2)]
  show ?thesis by (simp add: resolve_def lru_cache_def)
qed

theorem resolve_idempotent_witness:
  "\<exists>p s1 s2. resolve 1 example_env (plain (Class ''User'')) init_state = Some (Inr p, s1) \<and>
     resolve_many example_env [(1, plain (Class ''Foo'')), (1, plain (Class ''Node''))] s1 =
       Some s2 \<and>
     resolve 0 example_env (plain (Class ''User'')) s2 = Some (Inr p, s2) \<and>
     ident p = 0 \<and> built s1 = 1 \<and> built s2 = 2"
proof -
  let ?calls = "[(1, plain (Class ''Foo'')), (1, plain (Class ''Node''))]"
  have "case resolve 1 example_env (plain (Class ''User'')) init_state of
          Some (Inr p, s1) \<Rightarrow>
            (case resolve_many example_env ?calls s1 of
               Some s2 \<Rightarrow> ident p = 0 \<and> built s1 = 1 \<and> built s2 = 2
             | None \<Rightarrow> False)
        | _ \<Rightarrow> False"
    by code_simp
  from returned_cases [OF this] obtain p s1 where
    first: "resolve 1 example_env (plain (Class ''User'')) init_state = Some (Inr p, s1)" and
    rest: "case resolve_many example_env ?calls s1 of
               Some s2 \<Rightarrow> ident p = 0 \<and> built s1 = 1 \<and> built s2 = 2
             | None \<Rightarrow> False"
    by blast
  from some_cases [OF rest] obtain s2 where
    between: "resolve_many example_env ?calls s1 = Some s2" and
    counts: "ident p = 0 \<and> built s1 = 1 \<and> built s2 = 2"
    by blast
  from resolve_idempotent [OF first between]
  have "resolve 0 example_env (plain (Class ''User'')) s2 = Some (Inr p, s2)" .
  with first between counts show ?thesis by blast
qed

section \<open>Recursive types\<close>

lemma delayed_ok_init: "delayed_ok init_state"
  by (simp add: delayed_ok_def init_state_def)

lemma delayed_ok_cache: "delayed_ok s \<Longrightarrow> is_delayed a \<Longrightarrow> map_of (cache s) a = None"
proof (rule ccontr)
  assume ok: "delayed_ok s" and d: "is_delayed a" and "map_of (cache s) a \<noteq> None"
  then obtain p where "map_of (cache s) a = Some p" by auto
  from map_of_SomeD [OF this] ok have "\<not> is_delayed a"
    by (auto simp: delayed_ok_def list_all_iff)
  with d show False by simp
qed

lemma delayed_ok_memo:
  "delayed_ok s \<Longrightarrow> is_delayed a \<Longrightarrow> map_of (rfa_memo s) (a, d, sr, ns) = Some p \<Longrightarrow>
   is_delayed_protocol p"
  by (auto simp: delayed_ok_def list_all_iff dest!: map_of_SomeD)

lemma list_all_update:
  "list_all P d \<Longrightarrow> P (k, v) \<Longrightarrow> list_all P (AList.update k v d)"
  using set_update_subset [of k v d] by (auto simp: list_all_iff)

lemma delayed_ok_frame: "frame s s' \<Longrightarrow> delayed_ok s \<Longrightarrow> delayed_ok s'"
  by (simp add: frame_def delayed_ok_def)

lemma resolve_from_annotation_delayed:
  assumes ok: "delayed_ok s" and d: "is_delayed an"
  shows "\<exists>p s'. resolve_from_annotation env an ds sr ns s = Some (Inr p, s') \<and>
           is_delayed_protocol p \<and> stack s' = stack s \<and> delayed_ok s'"
proof (cases "map_of (rfa_memo s) (an, ds, sr, ns)")
  case (Some p)
  with delayed_ok_memo [OF ok d Some] ok show ?thesis
    by (simp add: resolve_from_annotation_def lru_cache_def)
next
  case None
  from delayed_ok_cache [OF ok d] d
  have body: "resolve_from_annotation_body env an ds sr ns s =
          Some (Inr (DelayedSerdeProtocol (next_id s) an), s\<lparr>next_id := Suc (next_id s)\<rparr>)"
    by (simp add: resolve_from_annotation_body_def)
  have "delayed_ok (s\<lparr>next_id := Suc (next_id s),
          rfa_memo := AList.update (an, ds, sr, ns) (DelayedSerdeProtocol (next_id s) an)
                        (rfa_memo s)\<rparr>)"
    using ok by (auto simp: delayed_ok_def intro!: list_all_update)
  with None body show ?thesis
    by (simp add: resolve_from_annotation_def lru_cache_def)
qed

lemma resolve_from_annotation_ok:
  assumes ok: "delayed_ok s" and r: "resolve_from_annotation env an ds sr ns s = Some (r, s')"
  shows "delayed_ok s'"
proof (cases "is_delayed an")
  case True
  from resolve_from_annotation_delayed [OF ok True, of env ds sr ns] r show ?thesis by auto
next
  case False
  have body: "delayed_ok s1 \<and> rfa_memo s1 = rfa_memo s"
    if "resolve_from_annotation_body env an ds sr ns s = Some (r1, s1)" for r1 s1
    using that ok False
    unfolding resolve_from_annotation_body_def Let_def
    by (auto simp: delayed_ok_def split: option.splits sum.splits prod.splits if_splits
        intro!: list_all_update)
  from r ok False show ?thesis
    unfolding resolve_from_annotation_def lru_cache_def
    by (auto simp: delayed_ok_def split: option.splits sum.splits prod.splits
        dest!: body intro!: list_all_update)
qed

lemma resolve_delayed_ok:
  assumes ok: "delayed_ok s" and r: "resolve n env a s = Some (r, s')"
  shows "delayed_ok s'"
proof -
  have ann: "delayed_ok s1"
    if "annotation n env t name par opt str fl dflt ns s = Some (r1, s1)"
    for t name par opt str fl dflt ns r1 s1
    using delayed_ok_frame [OF preservesD [OF annotation_frame that] ok] .
  have stk: "delayed_ok (s0\<lparr>stack := x\<rparr>) = delayed_ok s0" for s0 x
    by (simp add: delayed_ok_def)
  have memo: "delayed_ok (s0\<lparr>resolve_memo := x\<rparr>) = delayed_ok s0" for s0 x
    by (simp add: delayed_ok_def)
  have body: "delayed_ok s1" if "resolve_body n env a s = Some (r1, s1)" for r1 s1
    using that unfolding resolve_body_def
    by (auto simp: stk split: option.splits sum.splits prod.splits
        dest!: ann dest: resolve_from_annotation_ok)
  from r ok show ?thesis
    unfolding resolve_def lru_cache_def
    by (auto simp: memo split: option.splits sum.splits prod.splits dest!: body)
qed

text \<open>
  C7. When what the unwrapping leaves of the description is the namespace or is on the
  in-flight stack (and is neither an illegal literal nor a forward reference, which are
  handled before), canonicalization returns a \<^verbatim>\<open>DelayedAnnotation\<close> of it and takes it off the
  stack; \<^verbatim>\<open>resolve\<close>, called with the same arguments and running its body, then returns a
  \<^verbatim>\<open>DelayedSerdeProtocol\<close>.
\<close>

theorem recursion_delayed:
  assumes legal: "\<not> (c_literal (canonical env t name par opt str fl dflt) \<and>
                     (\<exists>a \<in> set (get_args (c_use (canonical env t name par opt str fl dflt))).
                        \<not> isinstance_LITERALS a))"
    and defined: "\<not> is_ForwardRef (c_use (canonical env t name par opt str fl dflt))"
    and recursive: "c_use (canonical env t name par opt str fl dflt) = ns \<or>
                    c_use (canonical env t name par opt str fl dflt) \<in> stack s"
  shows "annotation n env t name par opt str fl dflt ns s =
           Some (Inr (DelayedAnnotation (c_use (canonical env t name par opt str fl dflt)) name
                        (Some (c_parameter (canonical env t name par opt str fl dflt)))
                        (c_optional (canonical env t name par opt str fl dflt))
                        (c_strict (canonical env t name par opt str fl dflt))
                        (c_flags (canonical env t name par opt str fl dflt)) dflt),
                 s\<lparr>stack := stack s - {c_use (canonical env t name par opt str fl dflt)}\<rparr>) \<and>
         (dflt = EMPTY \<longrightarrow> delayed_ok s \<longrightarrow>
          map_of (resolve_memo s)
            \<lparr>arg_annotation = t, arg_flags = fl, arg_name = name, arg_parameter = par,
             arg_is_optional = opt, arg_is_strict = str, arg_namespace = ns, arg_des = ds,
             arg_ser = sr\<rparr> = None \<longrightarrow>
          (\<exists>p s'. resolve n env
                     \<lparr>arg_annotation = t, arg_flags = fl, arg_name = name, arg_parameter = par,
                      arg_is_optional = opt, arg_is_strict = str, arg_namespace = ns,
                      arg_des = ds, arg_ser = sr\<rparr> s = Some (Inr p, s') \<and>
                  is_delayed_protocol p))"
proof -
  let ?c = "canonical env t name par opt str fl dflt"
  let ?d = "DelayedAnnotation (c_use ?c) name (Some (c_parameter ?c)) (c_optional ?c)
              (c_strict ?c) (c_flags ?c) dflt"
  let ?s1 = "s\<lparr>stack := stack s - {c_use ?c}\<rparr>"
  let ?a = "\<lparr>arg_annotation = t, arg_flags = fl, arg_name = name, arg_parameter = par,
             arg_is_optional = opt, arg_is_strict = str, arg_namespace = ns, arg_des = ds,
             arg_ser = sr\<rparr>"
  obtain self_annotation where u: "annotation n env = annotation_body env self_annotation"
    using annotation_unfold by blast
  have ann: "annotation n env t name par opt str fl dflt ns s = Some (Inr ?d, ?s1)"
    using legal defined recursive by (simp add: u annotation_body_def Let_def)
  have res: "\<exists>p s'. resolve n env ?a s = Some (Inr p, s') \<and> is_delayed_protocol p"
    if e: "dflt = EMPTY" and ok: "delayed_ok s" and miss: "map_of (resolve_memo s) ?a = None"
  proof -
    have ok1: "delayed_ok ?s1" using ok by (simp add: delayed_ok_def)
    have "is_delayed ?d" by simp
    from resolve_from_annotation_delayed [OF ok1 this, of env ds sr ns]
    obtain p s2 where
      rfa: "resolve_from_annotation env ?d ds sr ns ?s1 = Some (Inr p, s2)" and
      p: "is_delayed_protocol p" by blast
    from ann rfa e have "resolve_body n env ?a s = Some (Inr p, s2\<lparr>stack := {}\<rparr>)"
      by (simp add: resolve_body_def)
    with miss p show ?thesis by (simp add: resolve_def lru_cache_def)
  qed
  from ann res show ?thesis by blast
qed

theorem recursion_delayed_witness:
  "annotation 0 example_env (Class ''Node'') None None None None None EMPTY (Class ''Node'')
     (init_state\<lparr>stack := {Class ''Node''}\<rparr>) =
     Some (Inr (DelayedAnnotation (Class ''Node'') None
                  (Some \<lparr>param_name = ''_'', param_annotation = Class ''Node'',
                         param_default = EMPTY\<rparr>)
                  False False default_flags EMPTY),
           init_state) \<and>
   (\<exists>p s'. resolve 0 example_env
              \<lparr>arg_annotation = Class ''Node'', arg_flags = None, arg_name = None,
               arg_parameter = None, arg_is_optional = None, arg_is_strict = None,
               arg_namespace = Class ''Node'', arg_des = True, arg_ser = True\<rparr>
              (init_state\<lparr>stack := {Class ''Node''}\<rparr>) = Some (Inr p, s') \<and>
           is_delayed_protocol p)"
proof -
  let ?s = "init_state\<lparr>stack := {Class ''Node''}\<rparr>"
  have canon: "canonical example_env (Class ''Node'') None None None None None EMPTY =
      \<lparr>c_flags = default_flags,
       c_parameter = \<lparr>param_name = ''_'', param_annotation = Class ''Node'',
                      param_default = EMPTY\<rparr>,
       c_orig = Class ''Node'', c_use = Class ''Node'', c_optional = False, c_strict = False,
       c_static = True, c_literal = False\<rparr>"
    by code_simp
  have legal: "\<not> (c_literal (canonical example_env (Class ''Node'') None None None None None EMPTY) \<and>
      (\<exists>a \<in> set (get_args (c_use (canonical example_env (Class ''Node'') None None None None
                                    None EMPTY))). \<not> isinstance_LITERALS a))"
    by (simp add: canon)
  have defined: "\<not> is_ForwardRef (c_use (canonical example_env (Class ''Node'') None None None
      None None EMPTY))"
    by (simp add: canon)
  have recursive: "c_use (canonical example_env (Class ''Node'') None None None None None EMPTY) =
      Class ''Node'' \<or>
      c_use (canonical example_env (Class ''Node'') None None None None None EMPTY) \<in> stack ?s"
    by (simp add: canon)
  have ok: "delayed_ok ?s" by (simp add: delayed_ok_def init_state_def)
  have miss: "map_of (resolve_memo ?s)
      \<lparr>arg_annotation = Class ''Node'', arg_flags = None, arg_name = None,
       arg_parameter = None, arg_is_optional = None, arg_is_strict = None,
       arg_namespace = Class ''Node'', arg_des = True, arg_ser = True\<rparr> = None"
    by (simp add: init_state_def)
  have after: "init_state\<lparr>stack := {}\<rparr> = init_state"
    by (simp add: init_state_def)
  from recursion_delayed [OF legal defined recursive, of 0 True True] ok miss
  show ?thesis
    unfolding canon by (simp add: after)
qed

section \<open>A failed resolution\<close>

text \<open>
  C3 on the code. \<^verbatim>\<open>Foo\<close> has the field \<^verbatim>\<open>x: Literal[1.5]\<close>. Resolving it raises the
  \<^verbatim>\<open>TypeError\<close> of the field while \<^verbatim>\<open>Foo\<close> is on the in-flight stack; \<^verbatim>\<open>self.__stack.clear()\<close>
  is not reached, and \<^verbatim>\<open>Foo\<close> stays on the stack after the call.
\<close>

theorem failed_resolve_leaves_stack:
  "resolve 1 example_env (plain (Class ''Foo'')) init_state =
     Some (Inl (TypeError [FloatV ''1.5'']), init_state\<lparr>stack := {Class ''Foo''}\<rparr>)"
  by code_simp

text \<open>
  C4 on the code. In the state the failed call leaves, the same call does not raise again:
  it finds \<^verbatim>\<open>Foo\<close> on the stack and returns a \<^verbatim>\<open>DelayedSerdeProtocol\<close>, which the table of
  \<^verbatim>\<open>resolve\<close> then keeps. The failed call itself stored nothing in the protocol cache.
\<close>

theorem failed_resolve_poisons_retry:
  "map_option fst (resolve 1 example_env (plain (Class ''Foo''))
                     (init_state\<lparr>stack := {Class ''Foo''}\<rparr>)) =
     Some (Inr (DelayedSerdeProtocol 0
                  (DelayedAnnotation (Class ''Foo'') None
                     (Some \<lparr>param_name = ''_'', param_annotation = Class ''Foo'',
                            param_default = EMPTY\<rparr>)
                     False False default_flags EMPTY))) \<and>
   map_option fst (resolve 1 example_env (plain (Class ''Foo'')) init_state) =
     Some (Inl (TypeError [FloatV ''1.5''])) \<and>
   cache (init_state\<lparr>stack := {Class ''Foo''}\<rparr>) = []"
  by code_simp

end
